theory Spec2Isabelle
  imports Complex_Main "HOL-Library.Product_Lexorder" "HOL-Library.FSet" "HOL-Library.Sublist"
begin

section \<open>Data model\<close>

text \<open>
  The cleaning-bot program works on cells \<open>(row, col)\<close> of Python integers and on a grid
  given as a list of rows, \<open>0\<close> for a free cell and anything else for an obstacle.
  Exceptions of the interpreter are values: a function that can raise returns
  \<open>py_error + 'a\<close>. Python's \<open>None\<close> result of \<open>astar\<close> is the inner \<open>option\<close>.
  An outer \<open>option\<close> stands for a call that does not return: its \<open>None\<close> is
  divergence of the predecessor walk in \<open>astar\<close>.
\<close>

datatype py_error = IndexError | KeyError | ZeroDivisionError

type_synonym cell = "int \<times> int"

type_synonym grid = "int list list"

section \<open>A* search\<close>

text \<open>\<open>def h(a,b): return abs(a[0]-b[0]) + abs(a[1]-b[1])\<close>\<close>

definition h :: "cell \<Rightarrow> cell \<Rightarrow> int" where
  "h a b = \<bar>fst a - fst b\<bar> + \<bar>snd a - snd b\<bar>"

text \<open>\<open>neighbors = [(1,0),(-1,0),(0,1),(0,-1)]\<close>\<close>

definition neighbors :: "(int \<times> int) list" where
  "neighbors = [(1, 0), (- 1, 0), (0, 1), (0, - 1)]"

text \<open>
  The local search state of one call. The g-scores are path lengths: they start at \<open>0\<close>
  and are only ever written as another g-score plus one, so they are natural numbers.
  The heap holds tuples \<open>(f, cell)\<close>, which Python compares lexicographically.
\<close>

record astar_state =
  open_heap :: "(int \<times> cell) list"
  gscore :: "cell \<rightharpoonup> nat"
  fscore :: "cell \<rightharpoonup> int"
  came :: "cell \<rightharpoonup> cell"

text \<open>
  \<open>heapq.heappop\<close> returns a smallest item of the heap and removes it. Tuples of
  integers are totally ordered, so the item returned is the minimum of the heap's
  contents, whatever the internal arrangement of the heap is; the heap is modelled by
  the list of its contents (\<open>heappush\<close> is \<open>#\<close>).
\<close>

definition heappop :: "(int \<times> cell) list \<Rightarrow> (int \<times> cell) \<times> (int \<times> cell) list" where
  "heappop hp = (let m = Min (set hp) in (m, remove1 m hp))"

text \<open>
  The walk along the predecessor map:
  \<^verbatim>\<open>
  while current in came:
      current = came[current]
      path.append(current)
  return list(reversed(path))
  \<close>
  On a cyclic map the walk does not end, which is the value \<open>None\<close>.
\<close>

partial_function (option) reconstruct :: "(cell \<rightharpoonup> cell) \<Rightarrow> cell \<Rightarrow> cell list \<Rightarrow> cell list option" where
  "reconstruct cm current path =
     (case cm current of
        None \<Rightarrow> Some (rev path)
      | Some p \<Rightarrow> reconstruct cm p (path @ [p]))"

text \<open>
  The body of \<open>for dr, dc in neighbors\<close> for one offset \<open>d\<close>. The conjunction
  \<open>0 <= nr < H and 0 <= nc < W and grid[nr][nc] == 0\<close> is evaluated left to right:
  the grid is read only for a cell inside \<open>H \<times> W\<close>, and the read raises \<open>IndexError\<close>
  when row \<open>nr\<close> is shorter than \<open>W\<close>. \<open>gscore[current]\<close> raises \<open>KeyError\<close> on a
  missing key. The default \<open>1e9\<close> of \<open>gscore.get\<close> is compared with an integer.
\<close>

definition relax :: "cell \<Rightarrow> grid \<Rightarrow> nat \<Rightarrow> nat \<Rightarrow> cell \<Rightarrow> astar_state \<Rightarrow> int \<times> int
    \<Rightarrow> py_error + astar_state" where
  "relax goal grid H W current st d =
     (let nr = fst current + fst d; nc = snd current + snd d in
      if 0 \<le> nr \<and> nr < int H \<and> 0 \<le> nc \<and> nc < int W then
        if nat nc < length (grid ! nat nr) then
          if grid ! nat nr ! nat nc = 0 then
            (case gscore st current of
               None \<Rightarrow> Inl KeyError
             | Some g \<Rightarrow>
                 let neigh = (nr, nc); tentative = g + 1 in
                 if (case gscore st neigh of
                       None \<Rightarrow> tentative < 1000000000
                     | Some gn \<Rightarrow> tentative < gn)
                 then Inr (st\<lparr>came := (came st)(neigh \<mapsto> current),
                             gscore := (gscore st)(neigh \<mapsto> tentative),
                             fscore := (fscore st)(neigh \<mapsto> int tentative + h neigh goal),
                             open_heap := (int tentative + h neigh goal, neigh) # open_heap st\<rparr>)
                 else Inr st)
          else Inr st
        else Inl IndexError
      else Inr st)"

fun relax_all :: "cell \<Rightarrow> grid \<Rightarrow> nat \<Rightarrow> nat \<Rightarrow> cell \<Rightarrow> (int \<times> int) list \<Rightarrow> astar_state
    \<Rightarrow> py_error + astar_state" where
  "relax_all goal grid H W current [] st = Inr st"
| "relax_all goal grid H W current (d # ds) st =
     (case relax goal grid H W current st d of
        Inl e \<Rightarrow> Inl e
      | Inr st' \<Rightarrow> relax_all goal grid H W current ds st')"

text \<open>The sum of the g-scores over the cells of \<open>H \<times> W\<close>, an unset one counting \<open>1e9\<close>.\<close>

definition gval :: "astar_state \<Rightarrow> cell \<Rightarrow> nat" where
  "gval st c = (case gscore st c of None \<Rightarrow> 1000000000 | Some g \<Rightarrow> g)"

definition gsum :: "nat \<Rightarrow> nat \<Rightarrow> astar_state \<Rightarrow> nat" where
  "gsum H W st = sum (gval st) ({0..<int H} \<times> {0..<int W})"

lemma relax_measure:
  assumes "relax goal grid H W current st d = Inr st'"
  shows "st' = st \<or> gsum H W st' < gsum H W st"
proof -
  let ?S = "{0..<int H} \<times> {0..<int W}"
  let ?n = "(fst current + fst d, snd current + snd d)"
  show ?thesis
  proof (cases "st' = st")
    case True
    then show ?thesis by simp
  next
    case False
    with assms obtain g where
      inb: "?n \<in> ?S" and g: "gscore st current = Some g"
      and lt: "g + 1 < gval st ?n"
      and st': "gscore st' = (gscore st)(?n \<mapsto> g + 1)"
      by (auto simp: relax_def Let_def gval_def split: if_splits option.splits)
    have fin: "finite ?S" by simp
    have eq: "\<And>c. c \<in> ?S - {?n} \<Longrightarrow> gval st' c = gval st c"
      by (simp add: gval_def st')
    have new: "gval st' ?n = g + 1"
      by (simp add: gval_def st')
    have "gsum H W st' = gval st' ?n + sum (gval st') (?S - {?n})"
      unfolding gsum_def using fin inb by (rule sum.remove)
    also have "\<dots> = g + 1 + sum (gval st) (?S - {?n})"
      using eq new by simp
    also have "\<dots> < gval st ?n + sum (gval st) (?S - {?n})"
      using lt by simp
    also have "\<dots> = gsum H W st"
      unfolding gsum_def using fin inb by (rule sum.remove [symmetric])
    finally show ?thesis by simp
  qed
qed

lemma relax_all_measure:
  "relax_all goal grid H W current ds st = Inr st' \<Longrightarrow>
     st' = st \<or> gsum H W st' < gsum H W st"
proof (induction ds arbitrary: st)
  case Nil
  then show ?case by simp
next
  case (Cons d ds)
  from Cons.prems obtain st1 where
    r: "relax goal grid H W current st d = Inr st1"
    and rest: "relax_all goal grid H W current ds st1 = Inr st'"
    by (auto split: sum.splits)
  from relax_measure [OF r] Cons.IH [OF rest] show ?case
    by auto
qed

lemma heappop_length:
  "hp \<noteq> [] \<Longrightarrow> length (snd (heappop hp)) < length hp"
proof -
  assume "hp \<noteq> []"
  then have "Min (set hp) \<in> set hp" by (intro Min_in) auto
  then show ?thesis
    by (simp add: heappop_def Let_def length_remove1) (cases hp; simp)
qed

text \<open>
  The main loop \<open>while open_heap:\<close>. It returns \<open>Inr None\<close> when the heap runs empty,
  the reconstructed path when the goal is popped, and goes round otherwise.
\<close>

function astar_loop :: "cell \<Rightarrow> grid \<Rightarrow> nat \<Rightarrow> nat \<Rightarrow> astar_state
    \<Rightarrow> (py_error + cell list option) option" where
  "astar_loop goal grid H W st =
     (if open_heap st = [] then Some (Inr None)
      else
        let popped = heappop (open_heap st); current = snd (fst popped) in
        if current = goal then
          map_option (\<lambda>p. Inr (Some p)) (reconstruct (came st) current [current])
        else
          (case relax_all goal grid H W current neighbors (st\<lparr>open_heap := snd popped\<rparr>) of
             Inl e \<Rightarrow> Some (Inl e)
           | Inr st' \<Rightarrow> astar_loop goal grid H W st'))"
  by pat_completeness auto

termination astar_loop
proof (relation "inv_image (less_than <*lex*> less_than)
    (\<lambda>(goal, grid, H, W, st). (gsum H W st, length (open_heap st)))")
  show "wf (inv_image (less_than <*lex*> less_than)
    (\<lambda>(goal, grid, H, W, st). (gsum H W st, length (open_heap st))))"
    by (intro wf_inv_image wf_lex_prod wf_less_than)
next
  fix goal :: cell and grid :: grid and H W :: nat and st :: astar_state
    and popped current st'
  assume ne: "open_heap st \<noteq> []"
    and p: "popped = heappop (open_heap st)"
    and "current = snd (fst popped)"
    and "current \<noteq> goal"
    and r: "relax_all goal grid H W current neighbors (st\<lparr>open_heap := snd popped\<rparr>) = Inr st'"
  let ?st0 = "st\<lparr>open_heap := snd popped\<rparr>"
  have g0: "gsum H W ?st0 = gsum H W st"
    by (simp add: gsum_def gval_def)
  from relax_all_measure [OF r] have "st' = ?st0 \<or> gsum H W st' < gsum H W ?st0" .
  then show "((goal, grid, H, W, st'), (goal, grid, H, W, st)) \<in>
    inv_image (less_than <*lex*> less_than)
      (\<lambda>(goal, grid, H, W, st). (gsum H W st, length (open_heap st)))"
  proof
    assume "st' = ?st0"
    then show ?thesis
      using heappop_length [OF ne] p g0 by simp
  next
    assume "gsum H W st' < gsum H W ?st0"
    then show ?thesis using g0 by simp
  qed
qed

text \<open>
  \<open>astar(start, goal, grid)\<close>. \<open>len(grid[0])\<close> raises \<open>IndexError\<close> on an empty grid.
\<close>

definition astar :: "cell \<Rightarrow> cell \<Rightarrow> grid \<Rightarrow> (py_error + cell list option) option" where
  "astar start goal grid =
     (case grid of
        [] \<Rightarrow> Some (Inl IndexError)
      | row0 # _ \<Rightarrow>
          astar_loop goal grid (length grid) (length row0)
            \<lparr>open_heap = [(h start goal, start)],
             gscore = [start \<mapsto> 0],
             fscore = [start \<mapsto> h start goal],
             came = Map.empty\<rparr>)"

section \<open>Task assignment\<close>

text \<open>
  The allocator's state. The dictionaries \<open>assignments\<close>, \<open>est_pos\<close> and \<open>est_len\<close>
  have the two keys \<open>0\<close> and \<open>1\<close> and are read and written at those keys only; they are
  functions on the agent number. \<open>remaining\<close> is a Python set, a finite set.
\<close>

record alloc_state =
  assignments :: "nat \<Rightarrow> cell list"
  est_pos :: "nat \<Rightarrow> cell"
  est_len :: "nat \<Rightarrow> int"
  remaining :: "cell fset"

text \<open>
  The variables \<open>best\<close> and \<open>best_score\<close> are written together: \<open>None\<close> stands for
  \<open>best = None, best_score = float('inf')\<close>, and \<open>Some (cell, ag, path, score)\<close> for
  \<open>best = (cell, ag, path), best_score = score\<close>. Every integer is below \<open>inf\<close>.
\<close>

type_synonym best = "(cell \<times> nat \<times> cell list \<times> int) option"

text \<open>The body of the two nested \<open>for\<close> loops, for one \<open>cell\<close> and one \<open>ag\<close>.\<close>

definition scan_step :: "grid \<Rightarrow> alloc_state \<Rightarrow> best \<Rightarrow> cell \<times> nat \<Rightarrow> (py_error + best) option" where
  "scan_step grid st b ca =
     (case ca of (cell, ag) \<Rightarrow>
        (case astar (est_pos st ag) cell grid of
           None \<Rightarrow> None
         | Some (Inl e) \<Rightarrow> Some (Inl e)
         | Some (Inr None) \<Rightarrow> Some (Inr b)
         | Some (Inr (Some path)) \<Rightarrow>
             let score = est_len st ag + int (length path) - 1 in
             if (case b of None \<Rightarrow> True | Some (_, _, _, best_score) \<Rightarrow> score < best_score)
             then Some (Inr (Some (cell, ag, path, score)))
             else Some (Inr b)))"

fun scan :: "grid \<Rightarrow> alloc_state \<Rightarrow> (cell \<times> nat) list \<Rightarrow> best \<Rightarrow> (py_error + best) option" where
  "scan grid st [] b = Some (Inr b)"
| "scan grid st (ca # cas) b =
     (case scan_step grid st b ca of
        None \<Rightarrow> None
      | Some (Inl e) \<Rightarrow> Some (Inl e)
      | Some (Inr b') \<Rightarrow> scan grid st cas b')"

text \<open>
  \<open>while remaining:\<close>. The order in which \<open>for cell in remaining\<close> visits a set is not
  fixed by the language; \<open>iter\<close> is the enumeration the interpreter uses. The pairs are
  visited cell by cell, agent \<open>0\<close> before agent \<open>1\<close>. \<open>remaining.remove(cell)\<close> raises
  \<open>KeyError\<close> for a missing element.
\<close>

function assign_loop :: "(cell fset \<Rightarrow> cell list) \<Rightarrow> grid \<Rightarrow> alloc_state
    \<Rightarrow> (py_error + alloc_state) option" where
  "assign_loop iter grid st =
     (if remaining st = {||} then Some (Inr st)
      else
        (case scan grid st (List.product (iter (remaining st)) [0, 1]) None of
           None \<Rightarrow> None
         | Some (Inl e) \<Rightarrow> Some (Inl e)
         | Some (Inr None) \<Rightarrow> Some (Inr st)
         | Some (Inr (Some (cell, ag, path, best_score))) \<Rightarrow>
             if cell |\<in>| remaining st then
               assign_loop iter grid
                 (st\<lparr>assignments := (assignments st)(ag := assignments st ag @ [cell]),
                     est_pos := (est_pos st)(ag := cell),
                     est_len := (est_len st)(ag := best_score),
                     remaining := remaining st |-| {|cell|}\<rparr>)
             else Some (Inl KeyError)))"
  by pat_completeness auto

termination assign_loop
proof (relation "measure (\<lambda>(iter, grid, st). fcard (remaining st))")
  show "wf (measure (\<lambda>(iter, grid, st). fcard (remaining st)))"
    by simp
next
  fix iter :: "cell fset \<Rightarrow> cell list" and grid :: grid and st :: alloc_state
    and cell :: cell and ag :: nat and best_score :: int
  assume "cell |\<in>| remaining st"
  then have "fcard (remaining st |-| {|cell|}) < fcard (remaining st)"
    by (rule fcard_fminus1_less)
  then show "((iter, grid,
       st\<lparr>assignments := (assignments st)(ag := assignments st ag @ [cell]),
          est_pos := (est_pos st)(ag := cell),
          est_len := (est_len st)(ag := best_score),
          remaining := remaining st |-| {|cell|}\<rparr>),
      (iter, grid, st)) \<in> measure (\<lambda>(iter, grid, st). fcard (remaining st))"
    by simp
qed

text \<open>
  \<open>assign_tasks(agent_starts, dirty, grid)\<close>. \<open>agent_starts[0]\<close> and \<open>agent_starts[1]\<close>
  raise \<open>IndexError\<close> on a sequence of fewer than two starts. \<open>assign_state\<close> is the
  state in which the loop ends; the function returns its \<open>assignments\<close>.
\<close>

definition assign_state :: "(cell fset \<Rightarrow> cell list) \<Rightarrow> cell list \<Rightarrow> cell fset \<Rightarrow> grid
    \<Rightarrow> (py_error + alloc_state) option" where
  "assign_state iter agent_starts dirty grid =
     (case agent_starts of
        s0 # s1 # _ \<Rightarrow>
          assign_loop iter grid
            \<lparr>assignments = (\<lambda>ag. []),
             est_pos = (\<lambda>ag. if ag = 0 then s0 else s1),
             est_len = (\<lambda>ag. 0),
             remaining = dirty\<rparr>
      | _ \<Rightarrow> Some (Inl IndexError))"

definition assign_tasks :: "(cell fset \<Rightarrow> cell list) \<Rightarrow> cell list \<Rightarrow> cell fset \<Rightarrow> grid
    \<Rightarrow> (py_error + (nat \<Rightarrow> cell list)) option" where
  "assign_tasks iter agent_starts dirty grid =
     map_option (map_sum id assignments) (assign_state iter agent_starts dirty grid)"

section \<open>Route planning\<close>

text \<open>
  \<open>plan_full_path(start, tasks, grid)\<close>: the loop over \<open>tasks\<close> with the variables
  \<open>pos\<close> and \<open>full\<close>. \<open>if p:\<close> holds for a non-empty list, and \<open>p[1:]\<close> is its tail.
\<close>

fun plan_loop :: "grid \<Rightarrow> cell list \<Rightarrow> cell \<Rightarrow> cell list \<Rightarrow> (py_error + cell list) option" where
  "plan_loop grid [] pos full = Some (Inr full)"
| "plan_loop grid (t # ts) pos full =
     (case astar pos t grid of
        None \<Rightarrow> None
      | Some (Inl e) \<Rightarrow> Some (Inl e)
      | Some (Inr None) \<Rightarrow> plan_loop grid ts pos full
      | Some (Inr (Some [])) \<Rightarrow> plan_loop grid ts pos full
      | Some (Inr (Some (c # cs))) \<Rightarrow> plan_loop grid ts t (full @ cs))"

definition plan_full_path :: "cell \<Rightarrow> cell list \<Rightarrow> grid \<Rightarrow> (py_error + cell list) option" where
  "plan_full_path start tasks grid = plan_loop grid tasks start [start]"

section \<open>Simulation\<close>

record sim_state =
  cleaned :: "cell fset"
  agent_positions :: "nat \<Rightarrow> cell"
  agent_steps :: "nat \<Rightarrow> nat"
  agent_path_idx :: "nat \<Rightarrow> nat"
  history_positions :: "nat \<Rightarrow> cell list"

text \<open>The body of \<open>for ag in [0,1]\<close>, with the flag \<open>moved\<close>.\<close>

definition agent_step :: "(nat \<Rightarrow> cell list) \<Rightarrow> cell fset \<Rightarrow> nat \<Rightarrow> sim_state \<times> bool
    \<Rightarrow> sim_state \<times> bool" where
  "agent_step paths dirty ag sm =
     (case sm of (s, moved) \<Rightarrow>
        let (s1, moved1) =
              (if agent_path_idx s ag + 1 < length (paths ag) then
                 (s\<lparr>agent_path_idx := (agent_path_idx s)(ag := agent_path_idx s ag + 1),
                    agent_positions :=
                      (agent_positions s)(ag := paths ag ! (agent_path_idx s ag + 1)),
                    agent_steps := (agent_steps s)(ag := agent_steps s ag + 1)\<rparr>, True)
               else (s, moved));
            s2 = (if agent_positions s1 ag |\<in>| dirty
                  then s1\<lparr>cleaned := finsert (agent_positions s1 ag) (cleaned s1)\<rparr>
                  else s1)
        in (s2\<lparr>history_positions :=
                  (history_positions s2)(ag := history_positions s2 ag @ [agent_positions s2 ag])\<rparr>,
            moved1))"

text \<open>One pass of the loop body: \<open>moved = False\<close>, then agent \<open>0\<close>, then agent \<open>1\<close>.\<close>

definition tick :: "(nat \<Rightarrow> cell list) \<Rightarrow> cell fset \<Rightarrow> sim_state \<Rightarrow> sim_state \<times> bool" where
  "tick paths dirty s = agent_step paths dirty 1 (agent_step paths dirty 0 (s, False))"

text \<open>
  \<open>for step in range(max_steps): ...; if not moved: break\<close>, by recursion on the number
  of values of \<open>step\<close> still to come. The result is the number of passes made and the
  final state.
\<close>

fun sim_loop :: "(nat \<Rightarrow> cell list) \<Rightarrow> cell fset \<Rightarrow> nat \<Rightarrow> sim_state \<Rightarrow> nat \<times> sim_state" where
  "sim_loop paths dirty 0 s = (0, s)"
| "sim_loop paths dirty (Suc n) s =
     (case tick paths dirty s of (s', moved) \<Rightarrow>
        if \<not> moved then (1, s')
        else (case sim_loop paths dirty n s' of (k, s'') \<Rightarrow> (Suc k, s'')))"

definition max_steps :: "(nat \<Rightarrow> cell list) \<Rightarrow> nat" where
  "max_steps paths = max (length (paths 0)) (length (paths 1)) + 200"

definition sim_init :: "cell \<Rightarrow> cell \<Rightarrow> sim_state" where
  "sim_init s0 s1 =
     \<lparr>cleaned = {||},
      agent_positions = (\<lambda>ag. if ag = 0 then s0 else s1),
      agent_steps = (\<lambda>ag. 0),
      agent_path_idx = (\<lambda>ag. 0),
      history_positions = (\<lambda>ag. [])\<rparr>"

definition simulate :: "cell \<Rightarrow> cell \<Rightarrow> (nat \<Rightarrow> cell list) \<Rightarrow> cell fset \<Rightarrow> nat \<times> sim_state" where
  "simulate s0 s1 paths dirty = sim_loop paths dirty (max_steps paths) (sim_init s0 s1)"



section \<open>Invariants of the search\<close>

definition shift :: "cell \<Rightarrow> int \<times> int \<Rightarrow> cell" where
  "shift c d = (fst c + fst d, snd c + snd d)"

definition passable :: "grid \<Rightarrow> nat \<Rightarrow> nat \<Rightarrow> cell \<Rightarrow> bool" where
  "passable grid H W c \<longleftrightarrow>
     0 \<le> fst c \<and> fst c < int H \<and> 0 \<le> snd c \<and> snd c < int W
     \<and> nat (snd c) < length (grid ! nat (fst c))
     \<and> grid ! nat (fst c) ! nat (snd c) = 0"

definition pushed :: "cell \<Rightarrow> cell \<Rightarrow> cell \<Rightarrow> nat \<Rightarrow> astar_state \<Rightarrow> astar_state" where
  "pushed goal current neigh tentative st =
     st\<lparr>came := (came st)(neigh \<mapsto> current),
        gscore := (gscore st)(neigh \<mapsto> tentative),
        fscore := (fscore st)(neigh \<mapsto> int tentative + h neigh goal),
        open_heap := (int tentative + h neigh goal, neigh) # open_heap st\<rparr>"

lemma relax_Inr:
  assumes "relax goal grid H W current st d = Inr st'"
  shows "(st' = st \<and> (passable grid H W (shift current d) \<longrightarrow>
            (\<exists>g. gscore st current = Some g \<and> gval st (shift current d) \<le> g + 1)))
       \<or> (\<exists>g. passable grid H W (shift current d) \<and> gscore st current = Some g
              \<and> g + 1 < gval st (shift current d)
              \<and> st' = pushed goal current (shift current d) (g + 1) st)"
  using assms
  by (auto simp: relax_def Let_def passable_def shift_def gval_def pushed_def
      split: if_splits option.splits)

lemma relax_Inl:
  assumes "relax goal grid H W current st d = Inl e"
  shows "(e = KeyError \<and> gscore st current = None)
       \<or> (e = IndexError \<and> 0 \<le> fst (shift current d) \<and> fst (shift current d) < int H
            \<and> \<not> W \<le> length (grid ! nat (fst (shift current d))))"
  using assms
  by (auto simp: relax_def Let_def shift_def split: if_splits option.splits)

lemma h_shift_neighbors: "d \<in> set neighbors \<Longrightarrow> h c (shift c d) = 1"
  by (auto simp: neighbors_def shift_def h_def)

definition inv1 :: "cell \<Rightarrow> grid \<Rightarrow> nat \<Rightarrow> nat \<Rightarrow> astar_state \<Rightarrow> bool" where
  "inv1 start grid H W st \<longleftrightarrow>
     gscore st start = Some 0
     \<and> (\<forall>c p. came st c = Some p \<longrightarrow>
          (\<exists>gp gc. gscore st p = Some gp \<and> gscore st c = Some gc \<and> gp < gc)
          \<and> h p c = 1 \<and> passable grid H W c)
     \<and> (\<forall>c. c \<noteq> start \<longrightarrow> gscore st c \<noteq> None \<longrightarrow> came st c \<noteq> None)
     \<and> (\<forall>e \<in> set (open_heap st). gscore st (snd e) \<noteq> None)"

lemma inv1_pushed:
  assumes inv: "inv1 start grid H W st"
    and g: "gscore st current = Some g"
    and lt: "g + 1 < gval st n"
    and adj: "h current n = 1"
    and pass: "passable grid H W n"
  shows "inv1 start grid H W (pushed goal current n (g + 1) st)"
proof -
  let ?st = "pushed goal current n (g + 1) st"
  have ne_cur: "n \<noteq> current" using g lt by (auto simp: gval_def)
  have ne_start: "n \<noteq> start" using inv lt by (auto simp: inv1_def gval_def)
  have a: "gscore ?st start = Some 0"
    using inv ne_start by (simp add: inv1_def pushed_def)
  have b: "\<forall>c p. came ?st c = Some p \<longrightarrow>
          (\<exists>gp gc. gscore ?st p = Some gp \<and> gscore ?st c = Some gc \<and> gp < gc)
          \<and> h p c = 1 \<and> passable grid H W c"
  proof (intro allI impI)
    fix c p assume cp: "came ?st c = Some p"
    show "(\<exists>gp gc. gscore ?st p = Some gp \<and> gscore ?st c = Some gc \<and> gp < gc)
          \<and> h p c = 1 \<and> passable grid H W c"
    proof (cases "c = n")
      case True
      with cp have "p = current" by (simp add: pushed_def)
      with True g ne_cur adj pass show ?thesis by (simp add: pushed_def)
    next
      case False
      with cp have old: "came st c = Some p" by (simp add: pushed_def)
      with inv obtain gp gc where gp: "gscore st p = Some gp" and gc: "gscore st c = Some gc"
        and less: "gp < gc" and rest: "h p c = 1" "passable grid H W c"
        unfolding inv1_def by blast
      show ?thesis
      proof (cases "p = n")
        case True
        with lt gp have "g + 1 < gp" by (simp add: gval_def)
        with True False gc less rest show ?thesis by (simp add: pushed_def)
      next
        case pn: False
        with False gp gc less rest show ?thesis by (simp add: pushed_def)
      qed
    qed
  qed
  have c: "\<forall>c. c \<noteq> start \<longrightarrow> gscore ?st c \<noteq> None \<longrightarrow> came ?st c \<noteq> None"
    using inv by (simp add: inv1_def pushed_def)
  have d: "\<forall>e \<in> set (open_heap ?st). gscore ?st (snd e) \<noteq> None"
    using inv by (simp add: inv1_def pushed_def)
  from a b c d show ?thesis unfolding inv1_def by blast
qed

lemma relax_inv1:
  assumes "inv1 start grid H W st" and "d \<in> set neighbors"
    and "relax goal grid H W current st d = Inr st'"
  shows "inv1 start grid H W st' \<and> gscore st' current = gscore st current"
proof -
  from relax_Inr [OF assms(3)] show ?thesis
  proof (elim disjE exE conjE)
    assume "st' = st"
    with assms(1) show ?thesis by simp
  next
    fix g
    assume pass: "passable grid H W (shift current d)" and g: "gscore st current = Some g"
      and lt: "g + 1 < gval st (shift current d)"
      and st': "st' = pushed goal current (shift current d) (g + 1) st"
    have "shift current d \<noteq> current" using g lt by (auto simp: gval_def)
    then have "gscore st' current = gscore st current" by (simp add: st' pushed_def)
    moreover have "inv1 start grid H W st'"
      unfolding st' using assms(1) g lt h_shift_neighbors [OF assms(2)] pass
      by (rule inv1_pushed)
    ultimately show ?thesis by simp
  qed
qed

lemma relax_all_inv1:
  "inv1 start grid H W st \<Longrightarrow> set ds \<subseteq> set neighbors \<Longrightarrow>
   relax_all goal grid H W current ds st = Inr st' \<Longrightarrow>
   inv1 start grid H W st' \<and> gscore st' current = gscore st current"
proof (induction ds arbitrary: st)
  case Nil
  then show ?case by simp
next
  case (Cons d ds)
  from Cons.prems(3) obtain st1 where
    r: "relax goal grid H W current st d = Inr st1"
    and rest: "relax_all goal grid H W current ds st1 = Inr st'"
    by (auto split: sum.splits)
  from Cons.prems(2) have d: "d \<in> set neighbors" and ds: "set ds \<subseteq> set neighbors" by auto
  from relax_inv1 [OF Cons.prems(1) d r]
  have i1: "inv1 start grid H W st1" and g1: "gscore st1 current = gscore st current" by auto
  from Cons.IH [OF i1 ds rest] g1 show ?case by simp
qed


definition rect :: "grid \<Rightarrow> nat \<Rightarrow> nat \<Rightarrow> bool" where
  "rect grid H W \<longleftrightarrow> (\<forall>r < H. W \<le> length (grid ! r))"

lemma relax_all_Inl:
  "inv1 start grid H W st \<Longrightarrow> set ds \<subseteq> set neighbors \<Longrightarrow> gscore st current \<noteq> None \<Longrightarrow>
   relax_all goal grid H W current ds st = Inl e \<Longrightarrow>
   e = IndexError \<and> \<not> rect grid H W"
proof (induction ds arbitrary: st)
  case Nil
  then show ?case by simp
next
  case (Cons d ds)
  from Cons.prems(2) have d: "d \<in> set neighbors" and ds: "set ds \<subseteq> set neighbors" by auto
  show ?case
  proof (cases "relax goal grid H W current st d")
    case (Inl e')
    with Cons.prems(4) have e: "e' = e" by simp
    from relax_Inl [OF Inl] Cons.prems(3) e
    have ie: "e = IndexError" and r0: "0 \<le> fst (shift current d)"
      and r1: "fst (shift current d) < int H"
      and short: "\<not> W \<le> length (grid ! nat (fst (shift current d)))"
      by auto
    from r0 r1 have "nat (fst (shift current d)) < H" by simp
    with short have "\<not> rect grid H W" unfolding rect_def by blast
    with ie show ?thesis by simp
  next
    case (Inr st1)
    with Cons.prems(4) have rest: "relax_all goal grid H W current ds st1 = Inl e" by simp
    from relax_inv1 [OF Cons.prems(1) d Inr]
    have i1: "inv1 start grid H W st1" and g1: "gscore st1 current = gscore st current" by auto
    from Cons.IH [OF i1 ds _ rest] g1 Cons.prems(3) show ?thesis by simp
  qed
qed

definition stepwise :: "cell list \<Rightarrow> bool" where
  "stepwise p = successively (\<lambda>a b. h a b = 1) p"

lemma h_sym: "h a b = h b a"
  by (simp add: h_def abs_minus_commute)



lemma stepwise_rev: "stepwise (rev p) = stepwise p"
  by (simp add: stepwise_def h_sym)



lemma inv1_came:
  "inv1 start grid H W st \<Longrightarrow> came st c = Some p \<Longrightarrow>
     (\<exists>gp gc. gscore st p = Some gp \<and> gscore st c = Some gc \<and> gp < gc)
     \<and> h p c = 1 \<and> passable grid H W c"
proof -
  assume inv: "inv1 start grid H W st" and cp: "came st c = Some p"
  from inv have "\<forall>c p. came st c = Some p \<longrightarrow>
          (\<exists>gp gc. gscore st p = Some gp \<and> gscore st c = Some gc \<and> gp < gc)
          \<and> h p c = 1 \<and> passable grid H W c"
    unfolding inv1_def by (elim conjE)
  then have "came st c = Some p \<longrightarrow>
          (\<exists>gp gc. gscore st p = Some gp \<and> gscore st c = Some gc \<and> gp < gc)
          \<and> h p c = 1 \<and> passable grid H W c"
    by (elim allE)
  with cp show ?thesis by (rule rev_mp)
qed

lemma inv1_root:
  "inv1 start grid H W st \<Longrightarrow> gscore st c = Some g \<Longrightarrow> came st c = None \<Longrightarrow> c = start"
proof -
  assume inv: "inv1 start grid H W st" and g: "gscore st c = Some g" and n: "came st c = None"
  from inv have "\<forall>c. c \<noteq> start \<longrightarrow> gscore st c \<noteq> None \<longrightarrow> came st c \<noteq> None"
    unfolding inv1_def by (elim conjE)
  then have "c \<noteq> start \<longrightarrow> gscore st c \<noteq> None \<longrightarrow> came st c \<noteq> None" by (rule spec)
  with g n show "c = start" by simp
qed

lemma inv1_heap:
  "inv1 start grid H W st \<Longrightarrow> e \<in> set (open_heap st) \<Longrightarrow> gscore st (snd e) \<noteq> None"
  unfolding inv1_def by (elim conjE bspec)

lemma stepwise_Cons2: "stepwise (a # b # r) \<longleftrightarrow> h a b = 1 \<and> stepwise (b # r)"
  by (simp add: stepwise_def)

lemma stepwise_single: "stepwise [a]"
  by (simp add: stepwise_def)

lemma reconstruct_walk:
  assumes inv: "inv1 start grid H W st"
  shows "gscore st cur = Some g \<Longrightarrow>
     \<exists>q. reconstruct (came st) cur path = Some (rev (path @ q))
        \<and> last (cur # q) = start \<and> length q \<le> g \<and> stepwise (cur # q)
        \<and> (\<forall>x \<in> set (butlast (cur # q)). passable grid H W x)"
proof (induction g arbitrary: cur path rule: less_induct)
  case (less g)
  show ?case
  proof (cases "came st cur")
    case None
    have cs: "cur = start" using inv less.prems None by (rule inv1_root)
    have r: "reconstruct (came st) cur path = Some (rev (path @ []))"
      using None by (subst reconstruct.simps) simp
    have "last (cur # []) = start" using cs by simp
    moreover have "length ([] :: cell list) \<le> g" by simp
    moreover have "\<forall>x \<in> set (butlast (cur # [])). passable grid H W x" by simp
    ultimately show ?thesis
      using r stepwise_single [of cur] by (intro exI [of _ "[]"] conjI)
  next
    case (Some p)
    from inv1_came [OF inv Some] less.prems obtain gp where gp: "gscore st p = Some gp"
      and lt: "gp < g" and adj: "h p cur = 1" and pass: "passable grid H W cur"
      by auto
    from less.IH [OF lt gp, of "path @ [p]"] obtain q where
      res: "reconstruct (came st) p (path @ [p]) = Some (rev ((path @ [p]) @ q))"
      and l: "last (p # q) = start" and len: "length q \<le> gp" and sw: "stepwise (p # q)"
      and ps: "\<forall>x \<in> set (butlast (p # q)). passable grid H W x"
      by (elim exE conjE)
    have a: "reconstruct (came st) cur path = Some (rev (path @ (p # q)))"
      using Some res by (subst reconstruct.simps) simp
    have b: "last (cur # p # q) = start" using l by simp
    have c: "length (p # q) \<le> g" using len lt by simp
    have "h cur p = 1" using adj by (simp only: h_sym [of cur p])
    then have d: "stepwise (cur # p # q)"
      using sw by (simp only: stepwise_Cons2)
    have e: "\<forall>x \<in> set (butlast (cur # p # q)). passable grid H W x"
      using ps pass by simp
    show ?thesis
      by (rule exI [of _ "p # q"]) (intro conjI a b c d e)
  qed
qed

definition good_path :: "cell \<Rightarrow> cell \<Rightarrow> grid \<Rightarrow> nat \<Rightarrow> nat \<Rightarrow> cell list \<Rightarrow> bool" where
  "good_path start goal grid H W path \<longleftrightarrow>
     path \<noteq> [] \<and> hd path = start \<and> last path = goal \<and> stepwise path
     \<and> (\<forall>c \<in> set (tl path). passable grid H W c)"

lemma reconstruct_good:
  assumes inv: "inv1 start grid H W st" and g: "gscore st goal = Some g"
  shows "\<exists>path. reconstruct (came st) goal [goal] = Some path
           \<and> good_path start goal grid H W path \<and> length path \<le> Suc g"
proof -
  from reconstruct_walk [OF inv g, of "[goal]"] obtain q where
    res: "reconstruct (came st) goal [goal] = Some (rev ([goal] @ q))"
    and l: "last (goal # q) = start" and len: "length q \<le> g" and sw: "stepwise (goal # q)"
    and ps: "\<forall>x \<in> set (butlast (goal # q)). passable grid H W x"
    by blast
  let ?path = "rev (goal # q)"
  have "hd ?path = start" using l by (simp only: hd_rev)
  moreover have "last ?path = goal" by simp
  moreover have "stepwise ?path" using sw by (simp only: stepwise_rev)
  moreover have "tl ?path = rev (butlast (goal # q))"
    by (metis butlast_rev rev_rev_ident)
  then have "\<forall>c \<in> set (tl ?path). passable grid H W c" using ps by simp
  moreover have "length ?path \<le> Suc g" using len by simp
  ultimately show ?thesis using res unfolding good_path_def by simp
qed


lemma heappop_in: "hp \<noteq> [] \<Longrightarrow> fst (heappop hp) \<in> set hp"
proof -
  assume "hp \<noteq> []"
  then have "Min (set hp) \<in> set hp" by (intro Min_in) auto
  then show ?thesis by (simp add: heappop_def Let_def)
qed

lemma heappop_rest: "set (snd (heappop hp)) \<subseteq> set hp"
  by (simp add: heappop_def Let_def set_remove1_subset)



lemma inv1_pop:
  assumes "inv1 start grid H W st"
  shows "inv1 start grid H W (st\<lparr>open_heap := snd (heappop (open_heap st))\<rparr>)"
proof -
  have "\<forall>e \<in> set (snd (heappop (open_heap st))). gscore st (snd e) \<noteq> None"
    using inv1_heap [OF assms] heappop_rest [of "open_heap st"] by blast
  with assms show ?thesis unfolding inv1_def by simp
qed

definition astar_ok :: "cell \<Rightarrow> cell \<Rightarrow> grid \<Rightarrow> nat \<Rightarrow> nat \<Rightarrow> py_error + cell list option \<Rightarrow> bool" where
  "astar_ok start goal grid H W r =
     (case r of
        Inl e \<Rightarrow> e = IndexError \<and> \<not> rect grid H W
      | Inr None \<Rightarrow> True
      | Inr (Some path) \<Rightarrow> good_path start goal grid H W path)"

lemma astar_loop_basic:
  "inv1 start grid H W st \<Longrightarrow>
     \<exists>r. astar_loop goal grid H W st = Some r \<and> astar_ok start goal grid H W r"
proof (induction goal grid H W st rule: astar_loop.induct)
  case (1 goal grid H W st)
  note inv = "1.prems"
  show ?case
  proof (cases "open_heap st = []")
    case True
    then have "astar_loop goal grid H W st = Some (Inr None)"
      by (subst astar_loop.simps) simp
    then show ?thesis by (simp add: astar_ok_def)
  next
    case ne: False
    let ?popped = "heappop (open_heap st)"
    let ?cur = "snd (fst ?popped)"
    let ?st0 = "st\<lparr>open_heap := snd ?popped\<rparr>"
    have inv0: "inv1 start grid H W ?st0" using inv by (rule inv1_pop)
    have "gscore st ?cur \<noteq> None"
      using inv1_heap [OF inv heappop_in [OF ne]] .
    then obtain g where g: "gscore st ?cur = Some g" by blast
    show ?thesis
    proof (cases "?cur = goal")
      case True
      from reconstruct_good [OF inv, of goal g] g True obtain path where
        res: "reconstruct (came st) goal [goal] = Some path"
        and good: "good_path start goal grid H W path"
        by auto
      have "astar_loop goal grid H W st = Some (Inr (Some path))"
        using ne True res by (subst astar_loop.simps) (simp add: Let_def)
      with good show ?thesis by (simp add: astar_ok_def)
    next
      case False
      show ?thesis
      proof (cases "relax_all goal grid H W ?cur neighbors ?st0")
        case (Inl e)
        have g0: "gscore ?st0 ?cur \<noteq> None" using g by simp
        from relax_all_Inl [OF inv0 subset_refl g0 Inl]
        have "astar_ok start goal grid H W (Inl e)" by (simp add: astar_ok_def)
        moreover have "astar_loop goal grid H W st = Some (Inl e)"
          using ne False Inl by (subst astar_loop.simps) (simp add: Let_def)
        ultimately show ?thesis by simp
      next
        case (Inr st')
        from relax_all_inv1 [OF inv0 subset_refl Inr]
        have inv': "inv1 start grid H W st'" by simp
        have eq: "astar_loop goal grid H W st = astar_loop goal grid H W st'"
          using ne False Inr by (subst astar_loop.simps) (simp add: Let_def)
        from "1.IH" [OF ne refl refl False Inr inv'] eq show ?thesis by simp
      qed
    qed
  qed
qed

lemma inv1_init:
  "inv1 start grid H W
     \<lparr>open_heap = [(f, start)], gscore = [start \<mapsto> 0], fscore = fs, came = Map.empty\<rparr>"
  by (simp add: inv1_def)

lemma astar_basic:
  "\<exists>r. astar start goal grid = Some r \<and>
       (case grid of [] \<Rightarrow> r = Inl IndexError
        | row0 # _ \<Rightarrow> astar_ok start goal grid (length grid) (length row0) r)"
proof (cases grid)
  case Nil
  then show ?thesis by (simp add: astar_def)
next
  case (Cons row0 rows)
  have "inv1 start grid (length grid) (length row0)
     \<lparr>open_heap = [(h start goal, start)], gscore = [start \<mapsto> 0],
      fscore = [start \<mapsto> h start goal], came = Map.empty\<rparr>"
    by (rule inv1_init)
  from astar_loop_basic [OF this, of goal]
  show ?thesis using Cons by (simp add: astar_def)
qed

section \<open>The simulation loop, pass by pass\<close>

fun after_ticks :: "(nat \<Rightarrow> cell list) \<Rightarrow> cell fset \<Rightarrow> nat \<Rightarrow> sim_state \<Rightarrow> sim_state" where
  "after_ticks paths dirty 0 s = s"
| "after_ticks paths dirty (Suc j) s = after_ticks paths dirty j (fst (tick paths dirty s))"

definition moved_at :: "(nat \<Rightarrow> cell list) \<Rightarrow> cell fset \<Rightarrow> sim_state \<Rightarrow> nat \<Rightarrow> bool" where
  "moved_at paths dirty s j = snd (tick paths dirty (after_ticks paths dirty j s))"

lemma after_ticks_Suc:
  "after_ticks paths dirty (Suc j) s = fst (tick paths dirty (after_ticks paths dirty j s))"
  by (induction j arbitrary: s) simp_all

lemma agent_step_cleaned_mono:
  "cleaned s |\<subseteq>| cleaned (fst (agent_step paths dirty ag (s, m)))"
  by (auto simp: agent_step_def Let_def split: if_splits)

lemma agent_step_cleaned_dirty:
  "cleaned s |\<subseteq>| dirty \<Longrightarrow> cleaned (fst (agent_step paths dirty ag (s, m))) |\<subseteq>| dirty"
  by (auto simp: agent_step_def Let_def split: if_splits)

lemma tick_cleaned_mono: "cleaned s |\<subseteq>| cleaned (fst (tick paths dirty s))"
proof -
  obtain s1 m1 where a: "agent_step paths dirty 0 (s, False) = (s1, m1)"
    by (cases "agent_step paths dirty 0 (s, False)")
  have "cleaned s |\<subseteq>| cleaned s1"
    using agent_step_cleaned_mono [of s paths dirty 0 False] a by simp
  moreover have "cleaned s1 |\<subseteq>| cleaned (fst (agent_step paths dirty 1 (s1, m1)))"
    by (rule agent_step_cleaned_mono)
  ultimately show ?thesis
    by (simp add: tick_def a)
qed

lemma tick_cleaned_dirty:
  assumes "cleaned s |\<subseteq>| dirty"
  shows "cleaned (fst (tick paths dirty s)) |\<subseteq>| dirty"
proof -
  obtain s1 m1 where a: "agent_step paths dirty 0 (s, False) = (s1, m1)"
    by (cases "agent_step paths dirty 0 (s, False)")
  have "cleaned s1 |\<subseteq>| dirty"
    using agent_step_cleaned_dirty [OF assms, of paths 0 False] a by simp
  then have "cleaned (fst (agent_step paths dirty 1 (s1, m1))) |\<subseteq>| dirty"
    by (rule agent_step_cleaned_dirty)
  then show ?thesis
    by (simp add: tick_def a)
qed

lemma after_ticks_cleaned_dirty:
  "cleaned s |\<subseteq>| dirty \<Longrightarrow> cleaned (after_ticks paths dirty j s) |\<subseteq>| dirty"
  by (induction j arbitrary: s) (simp_all add: tick_cleaned_dirty)


lemma sim_loop_trace:
  "sim_loop paths dirty n s = (k, s') \<Longrightarrow>
     k \<le> n \<and> s' = after_ticks paths dirty k s
     \<and> (\<forall>j. Suc j < k \<longrightarrow> moved_at paths dirty s j)
     \<and> (k < n \<longrightarrow> 0 < k \<and> \<not> moved_at paths dirty s (k - 1))"
proof (induction n arbitrary: s k s')
  case 0
  then show ?case by simp
next
  case (Suc n)
  obtain s1 m where t: "tick paths dirty s = (s1, m)"
    by (cases "tick paths dirty s")
  show ?case
  proof (cases m)
    case False
    with Suc.prems t show ?thesis
      by (auto simp: moved_at_def)
  next
    case True
    obtain k1 s2 where r: "sim_loop paths dirty n s1 = (k1, s2)"
      by (cases "sim_loop paths dirty n s1")
    from Suc.prems t True r have k: "k = Suc k1" and s': "s' = s2"
      by simp_all
    note ih = Suc.IH [OF r]
    have shift: "\<And>j. moved_at paths dirty s (Suc j) = moved_at paths dirty s1 j"
      using t by (simp add: moved_at_def)
    have m0: "moved_at paths dirty s 0"
      using t True by (simp add: moved_at_def)
    have a: "k \<le> Suc n" using ih k by simp
    have b: "s' = after_ticks paths dirty k s"
      using ih k s' t by simp
    have c: "\<forall>j. Suc j < k \<longrightarrow> moved_at paths dirty s j"
    proof (intro allI impI)
      fix j assume j: "Suc j < k"
      show "moved_at paths dirty s j"
      proof (cases j)
        case 0
        then show ?thesis using m0 by simp
      next
        case (Suc i)
        with j k have "Suc i < k1" by simp
        with ih have "moved_at paths dirty s1 i" by blast
        then show ?thesis using shift Suc by simp
      qed
    qed
    have d: "k < Suc n \<longrightarrow> 0 < k \<and> \<not> moved_at paths dirty s (k - 1)"
    proof
      assume "k < Suc n"
      with k have lt: "k1 < n" by simp
      with ih have pos: "0 < k1" and nm: "\<not> moved_at paths dirty s1 (k1 - 1)" by blast+
      from pos obtain i where i: "k1 = Suc i" by (cases k1) auto
      from nm i shift [of i] have "\<not> moved_at paths dirty s (k - 1)"
        using k by simp
      then show "0 < k \<and> \<not> moved_at paths dirty s (k - 1)" using k by simp
    qed
    from a b c d show ?thesis by blast
  qed
qed

section \<open>Properties of the search result\<close>

definition free_cell :: "grid \<Rightarrow> cell \<Rightarrow> bool" where
  "free_cell grid c \<longleftrightarrow>
     0 \<le> fst c \<and> nat (fst c) < length grid
     \<and> 0 \<le> snd c \<and> nat (snd c) < length (grid ! nat (fst c))
     \<and> grid ! nat (fst c) ! nat (snd c) = 0"

lemma passable_free: "passable grid (length grid) W c \<Longrightarrow> free_cell grid c"
  by (auto simp: passable_def free_cell_def)

lemma astar_good_path:
  assumes "astar start goal grid = Some (Inr (Some path))"
  shows "\<exists>W. good_path start goal grid (length grid) W path"
proof (cases grid)
  case Nil
  with assms show ?thesis by (simp add: astar_def)
next
  case (Cons row0 rows)
  from astar_basic [of start goal grid] assms Cons
  have "good_path start goal grid (length grid) (length row0) path"
    by (simp add: astar_ok_def)
  then show ?thesis ..
qed

lemmas astar_eval = astar_def astar_loop.simps heappop_def relax_def neighbors_def h_def Let_def
  reconstruct.simps

text \<open>
  C2, as amended. Whenever \<open>astar\<close> returns a path, the path is not empty, begins at
  \<open>start\<close> and ends at \<open>goal\<close>, and every cell after the first is a free cell of the
  grid: inside the grid and not an obstacle. The start cell itself is never checked, so
  the whole path is free of obstacles and inside the grid when \<open>start\<close> is a free cell.
\<close>

theorem astar_path_cells_free:
  "astar start goal grid = Some (Inr (Some path)) \<Longrightarrow>
     path \<noteq> [] \<and> hd path = start \<and> last path = goal
     \<and> (\<forall>c \<in> set (tl path). free_cell grid c)
     \<and> (free_cell grid start \<longrightarrow> (\<forall>c \<in> set path. free_cell grid c))"
proof -
  assume a: "astar start goal grid = Some (Inr (Some path))"
  from astar_good_path [OF a] obtain W where g: "good_path start goal grid (length grid) W path" ..
  then have ne: "path \<noteq> []" and hd: "hd path = start" and l: "last path = goal"
    and t: "\<forall>c \<in> set (tl path). passable grid (length grid) W c"
    by (simp_all add: good_path_def)
  from t have tf: "\<forall>c \<in> set (tl path). free_cell grid c"
    using passable_free by blast
  have "set path = insert (hd path) (set (tl path))"
    using ne by (cases path) simp_all
  with tf hd have "free_cell grid start \<longrightarrow> (\<forall>c \<in> set path. free_cell grid c)"
    by simp
  with ne hd l tf show ?thesis by blast
qed

lemma astar_eval_line3:
  "astar (0, 0) (0, 2) [[0, 0, 0]] = Some (Inr (Some [(0, 0), (0, 1), (0, 2)]))"
  by (simp add: astar_eval)

theorem astar_path_cells_free_witness:
  "astar (0, 0) (0, 2) [[0, 0, 0]] = Some (Inr (Some [(0, 0), (0, 1), (0, 2)]))
   \<and> free_cell [[0, 0, 0]] (0, 0) \<and> free_cell [[0, 0, 0]] (0, 1) \<and> free_cell [[0, 0, 0]] (0, 2)"
  using astar_path_cells_free [OF astar_eval_line3] astar_eval_line3
  by (simp add: free_cell_def)

theorem astar_path_cells_free_counterexample:
  "astar (0, 0) (0, 0) [[1]] = Some (Inr (Some [(0, 0)])) \<and> \<not> free_cell [[1]] (0, 0)
   \<and> astar (- 1, 0) (0, 1) [[0, 0]] = Some (Inr (Some [(- 1, 0), (0, 0), (0, 1)]))
   \<and> \<not> free_cell [[0, 0]] (- 1, 0)"
  by (simp add: astar_eval free_cell_def)


section \<open>Properties of the simulation and of the metric\<close>







lemma agent_step_idx:
  "agent_path_idx (fst (agent_step paths dirty ag (s, m))) b =
     (if b = ag \<and> agent_path_idx s ag + 1 < length (paths ag)
      then agent_path_idx s ag + 1 else agent_path_idx s b)"
  by (simp add: agent_step_def Let_def)

lemma agent_step_flag:
  "snd (agent_step paths dirty ag (s, m)) = (m \<or> agent_path_idx s ag + 1 < length (paths ag))"
  by (simp add: agent_step_def Let_def)

lemma tick_idx:
  "b < 2 \<Longrightarrow> agent_path_idx (fst (tick paths dirty s)) b =
     (if agent_path_idx s b + 1 < length (paths b)
      then agent_path_idx s b + 1 else agent_path_idx s b)"
proof -
  assume b: "b < 2"
  obtain s1 m1 where a: "agent_step paths dirty 0 (s, False) = (s1, m1)"
    by (cases "agent_step paths dirty 0 (s, False)")
  have i1: "\<And>c. agent_path_idx s1 c =
     (if c = 0 \<and> agent_path_idx s 0 + 1 < length (paths 0)
      then agent_path_idx s 0 + 1 else agent_path_idx s c)"
    using agent_step_idx [of paths dirty 0 s False] a by simp
  from b have "b = 0 \<or> b = 1" by auto
  then show ?thesis
    using agent_step_idx [of paths dirty 1 s1 m1 b] i1
    by (auto simp: tick_def a)
qed

lemma tick_flag:
  "snd (tick paths dirty s) =
     (agent_path_idx s 0 + 1 < length (paths 0) \<or> agent_path_idx s 1 + 1 < length (paths 1))"
proof -
  obtain s1 m1 where a: "agent_step paths dirty 0 (s, False) = (s1, m1)"
    by (cases "agent_step paths dirty 0 (s, False)")
  have m1: "m1 = (agent_path_idx s 0 + 1 < length (paths 0))"
    using agent_step_flag [of paths dirty 0 s False] a by simp
  have i1: "agent_path_idx s1 1 = agent_path_idx s 1"
    using agent_step_idx [of paths dirty 0 s False 1] a by simp
  show ?thesis
    using agent_step_flag [of paths dirty 1 s1 m1] m1 i1 by (simp add: tick_def a)
qed

definition advanced :: "(nat \<Rightarrow> cell list) \<Rightarrow> cell fset \<Rightarrow> sim_state \<Rightarrow> nat \<Rightarrow> nat \<Rightarrow> bool" where
  "advanced paths dirty s j ag \<longleftrightarrow>
     agent_path_idx (after_ticks paths dirty j s) ag
       < agent_path_idx (after_ticks paths dirty (Suc j) s) ag"

lemma advanced_iff:
  "b < 2 \<Longrightarrow> advanced paths dirty s j b \<longleftrightarrow>
     agent_path_idx (after_ticks paths dirty j s) b + 1 < length (paths b)"
  unfolding advanced_def after_ticks_Suc by (simp add: tick_idx)

lemma moved_at_advanced:
  "moved_at paths dirty s j \<longleftrightarrow> advanced paths dirty s j 0 \<or> advanced paths dirty s j 1"
  by (simp add: moved_at_def tick_flag advanced_iff)

lemma idx_after_ticks:
  "b < 2 \<Longrightarrow> agent_path_idx (after_ticks paths dirty j (sim_init s0 s1)) b
     = min j (length (paths b) - 1)"
proof (induction j)
  case 0
  then show ?case by (simp add: sim_init_def)
next
  case (Suc j)
  from Suc.IH [OF Suc.prems]
  have ih: "agent_path_idx (after_ticks paths dirty j (sim_init s0 s1)) b
     = min j (length (paths b) - 1)" .
  show ?case
    unfolding after_ticks_Suc by (simp add: tick_idx [OF Suc.prems] ih)
qed

lemma advanced_init:
  "b < 2 \<Longrightarrow> advanced paths dirty (sim_init s0 s1) j b \<longleftrightarrow> Suc j < length (paths b)"
  by (simp add: advanced_iff idx_after_ticks) linarith


lemma moved_at_init:
  "moved_at paths dirty (sim_init s0 s1) j \<longleftrightarrow>
     Suc j < max (length (paths 0)) (length (paths 1))"
proof -
  have z: "(0 :: nat) < 2" and o: "(1 :: nat) < 2" by simp_all
  show ?thesis
    unfolding moved_at_advanced advanced_init [OF z] advanced_init [OF o] by auto
qed

text \<open>
  C8. The simulation loop terminates for every pair of routes. It makes \<open>k\<close> passes,
  at least one and at most \<open>max(len(paths[0]), len(paths[1])) + 200\<close>. In every pass
  before the last one an agent advanced along its route, and in the last pass no agent
  advanced: the loop ends at the first pass in which no agent advances, which is pass
  number \<open>max(1, len(paths[0]), len(paths[1]))\<close>, below the cap; at the end both agents
  have used up their routes. An agent advances in a pass when its index into its route
  grows in that pass.
\<close>

theorem simulation_terminates:
  "\<exists>k s'. simulate s0 s1 paths dirty = (k, s')
     \<and> k \<le> max (length (paths 0)) (length (paths 1)) + 200
     \<and> s' = after_ticks paths dirty k (sim_init s0 s1)
     \<and> 0 < k
     \<and> (\<forall>j. Suc j < k \<longrightarrow>
          advanced paths dirty (sim_init s0 s1) j 0 \<or> advanced paths dirty (sim_init s0 s1) j 1)
     \<and> \<not> advanced paths dirty (sim_init s0 s1) (k - 1) 0
     \<and> \<not> advanced paths dirty (sim_init s0 s1) (k - 1) 1
     \<and> k = max 1 (max (length (paths 0)) (length (paths 1)))
     \<and> \<not> agent_path_idx s' 0 + 1 < length (paths 0)
     \<and> \<not> agent_path_idx s' 1 + 1 < length (paths 1)"
proof -
  let ?L = "max (length (paths 0)) (length (paths 1))"
  let ?i = "sim_init s0 s1"
  obtain k s' where r: "sim_loop paths dirty (max_steps paths) ?i = (k, s')"
    by (cases "sim_loop paths dirty (max_steps paths) ?i")
  from sim_loop_trace [OF r]
  have le: "k \<le> ?L + 200" and s': "s' = after_ticks paths dirty k ?i"
    and A: "\<forall>j. Suc j < k \<longrightarrow> moved_at paths dirty ?i j"
    and B: "k < ?L + 200 \<longrightarrow> 0 < k \<and> \<not> moved_at paths dirty ?i (k - 1)"
    by (simp_all add: max_steps_def)
  have lt: "k < ?L + 200"
  proof (rule ccontr)
    assume "\<not> k < ?L + 200"
    with le have k: "k = ?L + 200" by simp
    then have "Suc (?L + 198) < k" by simp
    with A have "moved_at paths dirty ?i (?L + 198)" by blast
    then show False by (simp add: moved_at_init)
  qed
  with B have pos: "0 < k" and last: "\<not> moved_at paths dirty ?i (k - 1)" by simp_all
  from last have "\<not> Suc (k - 1) < ?L" unfolding moved_at_init .
  with pos have Lk: "?L \<le> k" by linarith
  have kL: "k = max 1 ?L"
  proof (cases "k = 1")
    case True
    with Lk show ?thesis by simp
  next
    case False
    with pos have "Suc (k - 2) < k" by simp
    with A have "moved_at paths dirty ?i (k - 2)" by blast
    then have "Suc (k - 2) < ?L" unfolding moved_at_init .
    with False pos Lk show ?thesis by linarith
  qed
  have adv: "\<forall>j. Suc j < k \<longrightarrow> advanced paths dirty ?i j 0 \<or> advanced paths dirty ?i j 1"
    using A by (simp add: moved_at_advanced)
  from last have n0: "\<not> advanced paths dirty ?i (k - 1) 0"
    and n1: "\<not> advanced paths dirty ?i (k - 1) 1"
    by (simp_all add: moved_at_advanced)
  have z: "(0 :: nat) < 2" and o: "(1 :: nat) < 2" by simp_all
  have e0: "\<not> agent_path_idx s' 0 + 1 < length (paths 0)"
    unfolding s' idx_after_ticks [OF z] using Lk by linarith
  have e1: "\<not> agent_path_idx s' 1 + 1 < length (paths 1)"
    unfolding s' idx_after_ticks [OF o] using Lk by linarith
  have "simulate s0 s1 paths dirty = (k, s')" using r by (simp add: simulate_def)
  with le s' pos adv n0 n1 kL e0 e1 show ?thesis by blast
qed

theorem simulation_terminates_witness:
  "fst (simulate (0, 0) (1, 1) (\<lambda>ag. if ag = 0 then [(0, 0), (0, 1)] else [(1, 1)]) {||}) = 2
   \<and> (2 :: nat) \<le> max (length [(0, 0), (0, 1 :: int)]) (length [(1, 1 :: int)]) + 200
   \<and> advanced (\<lambda>ag. if ag = 0 then [(0, 0), (0, 1)] else [(1, 1)]) {||} (sim_init (0, 0) (1, 1)) 0 0
   \<and> \<not> advanced (\<lambda>ag. if ag = 0 then [(0, 0), (0, 1)] else [(1, 1)]) {||}
        (sim_init (0, 0) (1, 1)) 0 1
   \<and> \<not> advanced (\<lambda>ag. if ag = 0 then [(0, 0), (0, 1)] else [(1, 1)]) {||}
        (sim_init (0, 0) (1, 1)) 1 0
   \<and> \<not> advanced (\<lambda>ag. if ag = 0 then [(0, 0), (0, 1)] else [(1, 1)]) {||}
        (sim_init (0, 0) (1, 1)) 1 1"
proof -
  let ?P = "\<lambda>ag :: nat. if ag = 0 then [(0, 0), (0, 1)] else [(1, 1 :: int)]"
  let ?i = "sim_init (0, 0) (1, 1)"
  from simulation_terminates [of "(0, 0)" "(1, 1)" ?P "{||}"] obtain k s' where
    r: "simulate (0, 0) (1, 1) ?P {||} = (k, s')"
    and a: "\<forall>j. Suc j < k \<longrightarrow> advanced ?P {||} ?i j 0 \<or> advanced ?P {||} ?i j 1"
    and n0: "\<not> advanced ?P {||} ?i (k - 1) 0" and n1: "\<not> advanced ?P {||} ?i (k - 1) 1"
    and k: "k = max 1 (max (length (?P 0)) (length (?P 1)))"
    by auto
  from k have k2: "k = 2" by simp
  have z: "(0 :: nat) < 2" and o: "(1 :: nat) < 2" by simp_all
  have o0: "\<not> advanced ?P {||} ?i 0 1"
    using advanced_init [OF o, of ?P "{||}" "(0, 0)" "(1, 1)" 0] by simp
  from a k2 have "advanced ?P {||} ?i 0 0 \<or> advanced ?P {||} ?i 0 1" by simp
  with o0 have a0: "advanced ?P {||} ?i 0 0" by simp
  from n0 n1 k2 have l0: "\<not> advanced ?P {||} ?i 1 0" and l1: "\<not> advanced ?P {||} ?i 1 1"
    by simp_all
  from r k2 have "fst (simulate (0, 0) (1, 1) ?P {||}) = 2" by simp
  with a0 o0 l0 l1 show ?thesis by simp
qed

text \<open>
  C9. After any number of passes the set \<open>cleaned\<close> is a subset of \<open>dirty\<close>, it only
  grows from one pass to the next, it is a subset of \<open>dirty\<close> when the simulation ends,
  and an agent standing on a cell that is already in \<open>cleaned\<close> leaves the set as it is.
\<close>

lemma agent_step_idem:
  "agent_positions (fst (agent_step paths dirty ag (s, m))) ag |\<in>| cleaned s \<Longrightarrow>
     cleaned (fst (agent_step paths dirty ag (s, m))) = cleaned s"
  by (auto simp: agent_step_def Let_def split: if_splits)

theorem cleaned_subset_monotone:
  "cleaned (after_ticks paths dirty j (sim_init s0 s1)) |\<subseteq>| dirty
   \<and> cleaned (after_ticks paths dirty j (sim_init s0 s1))
       |\<subseteq>| cleaned (after_ticks paths dirty (Suc j) (sim_init s0 s1))
   \<and> cleaned (snd (simulate s0 s1 paths dirty)) |\<subseteq>| dirty
   \<and> (agent_positions (fst (agent_step paths dirty ag (s, m))) ag |\<in>| cleaned s \<longrightarrow>
        cleaned (fst (agent_step paths dirty ag (s, m))) = cleaned s)"
proof -
  have init: "cleaned (sim_init s0 s1) |\<subseteq>| dirty" by (simp add: sim_init_def)
  have a: "cleaned (after_ticks paths dirty j (sim_init s0 s1)) |\<subseteq>| dirty" for j
    using init by (rule after_ticks_cleaned_dirty)
  have b: "cleaned (after_ticks paths dirty j (sim_init s0 s1))
       |\<subseteq>| cleaned (after_ticks paths dirty (Suc j) (sim_init s0 s1))"
    by (simp only: after_ticks_Suc tick_cleaned_mono)
  obtain k s' where r: "sim_loop paths dirty (max_steps paths) (sim_init s0 s1) = (k, s')"
    by (cases "sim_loop paths dirty (max_steps paths) (sim_init s0 s1)")
  from sim_loop_trace [OF r] have "s' = after_ticks paths dirty k (sim_init s0 s1)" by simp
  with a [of k] r have c: "cleaned (snd (simulate s0 s1 paths dirty)) |\<subseteq>| dirty"
    by (simp add: simulate_def)
  from a b c agent_step_idem show ?thesis by blast
qed

theorem cleaned_subset_monotone_witness:
  "agent_positions (fst (agent_step (\<lambda>ag. [(0, 0), (0, 1)]) {|(0, 1)|} 0
      (\<lparr>cleaned = {|(0, 1)|}, agent_positions = (\<lambda>ag. (0, 0)), agent_steps = (\<lambda>ag. 0),
        agent_path_idx = (\<lambda>ag. 0), history_positions = (\<lambda>ag. [])\<rparr>, False))) 0 = (0, 1)
   \<and> cleaned (fst (agent_step (\<lambda>ag. [(0, 0), (0, 1)]) {|(0, 1)|} 0
      (\<lparr>cleaned = {|(0, 1)|}, agent_positions = (\<lambda>ag. (0, 0)), agent_steps = (\<lambda>ag. 0),
        agent_path_idx = (\<lambda>ag. 0), history_positions = (\<lambda>ag. [])\<rparr>, False))) = {|(0, 1)|}"
  using cleaned_subset_monotone [of "\<lambda>ag. [(0, 0), (0, 1)]" "{|(0, 1)|}" 0 "(0, 0)" "(0, 0)" 0
      "\<lparr>cleaned = {|(0, 1)|}, agent_positions = (\<lambda>ag. (0, 0)), agent_steps = (\<lambda>ag. 0),
        agent_path_idx = (\<lambda>ag. 0), history_positions = (\<lambda>ag. [])\<rparr>" False]
  by (simp add: agent_step_def Let_def)

section \<open>Invariants of the allocator\<close>

definition rect_grid :: "grid \<Rightarrow> bool" where
  "rect_grid grid \<longleftrightarrow> grid \<noteq> [] \<and> (\<forall>row \<in> set grid. length row = length (hd grid))"

lemma astar_total: "\<exists>r. astar start goal grid = Some r"
  using astar_basic [of start goal grid] by blast

lemma astar_path_ends:
  assumes "astar start goal grid = Some (Inr (Some path))"
  shows "path \<noteq> [] \<and> hd path = start \<and> last path = goal"
  using astar_good_path [OF assms] by (auto simp: good_path_def)

lemma astar_no_error:
  assumes "rect_grid grid"
  shows "astar start goal grid \<noteq> Some (Inl e)"
proof
  assume a: "astar start goal grid = Some (Inl e)"
  from assms obtain row0 rows where g: "grid = row0 # rows"
    by (cases grid) (auto simp: rect_grid_def)
  from astar_basic [of start goal grid] a g
  have "\<not> rect grid (length grid) (length row0)"
    by (simp add: astar_ok_def)
  moreover have "\<forall>r < length grid. length (grid ! r) = length (hd grid)"
    using assms nth_mem unfolding rect_grid_def by blast
  then have "rect grid (length grid) (length row0)"
    using g by (simp add: rect_def)
  ultimately show False by simp
qed

text \<open>The path and the score of a pair \<open>(cell, ag)\<close>, when the search finds a path.\<close>

definition candidate :: "grid \<Rightarrow> alloc_state \<Rightarrow> cell \<times> nat \<Rightarrow> (cell list \<times> int) option" where
  "candidate grid st ca =
     (case astar (est_pos st (snd ca)) (fst ca) grid of
        Some (Inr (Some path)) \<Rightarrow> Some (path, est_len st (snd ca) + int (length path) - 1)
      | _ \<Rightarrow> None)"

lemma scan_step_candidate:
  assumes "scan_step grid st b ca = Some (Inr b')"
  shows "(case candidate grid st ca of
            None \<Rightarrow> b' = b
          | Some (path, s) \<Rightarrow>
              (case b of
                 None \<Rightarrow> b' = Some (fst ca, snd ca, path, s)
               | Some (c0, a0, p0, s0) \<Rightarrow>
                   if s < s0 then b' = Some (fst ca, snd ca, path, s) else b' = b))"
  using assms
  by (cases ca)
     (auto simp: scan_step_def candidate_def Let_def split: option.splits sum.splits if_splits)

lemma scan_append:
  "scan grid st (xs @ ys) b =
     (case scan grid st xs b of
        None \<Rightarrow> None
      | Some (Inl e) \<Rightarrow> Some (Inl e)
      | Some (Inr b1) \<Rightarrow> scan grid st ys b1)"
  by (induction xs arbitrary: b) (auto split: option.splits sum.splits)

definition first_min :: "grid \<Rightarrow> alloc_state \<Rightarrow> (cell \<times> nat) list \<Rightarrow> best \<Rightarrow> bool" where
  "first_min grid st pairs b \<longleftrightarrow>
     (case b of
        None \<Rightarrow> \<forall>ca \<in> set pairs. candidate grid st ca = None
      | Some (cell, ag, path, sc) \<Rightarrow>
          \<exists>pre post. pairs = pre @ (cell, ag) # post
            \<and> candidate grid st (cell, ag) = Some (path, sc)
            \<and> (\<forall>ca \<in> set pre. \<forall>p s. candidate grid st ca = Some (p, s) \<longrightarrow> sc < s)
            \<and> (\<forall>ca \<in> set post. \<forall>p s. candidate grid st ca = Some (p, s) \<longrightarrow> sc \<le> s))"

lemma first_min_SomeI:
  assumes "pairs = pre @ (cell, ag) # post"
    and "candidate grid st (cell, ag) = Some (path, sc)"
    and "\<forall>ca \<in> set pre. \<forall>p s. candidate grid st ca = Some (p, s) \<longrightarrow> sc < s"
    and "\<forall>ca \<in> set post. \<forall>p s. candidate grid st ca = Some (p, s) \<longrightarrow> sc \<le> s"
  shows "first_min grid st pairs (Some (cell, ag, path, sc))"
  unfolding first_min_def option.case prod.case
  by (rule exI [of _ pre], rule exI [of _ post]) (intro conjI assms)

lemma first_min_snoc:
  assumes fm: "first_min grid st xs b1"
    and step: "scan_step grid st b1 x = Some (Inr b')"
  shows "first_min grid st (xs @ [x]) b'"
proof (cases "candidate grid st x")
  case None
  with scan_step_candidate [OF step] have b': "b' = b1" by simp
  show ?thesis
  proof (cases b1)
    case bn: None
    with fm None b' show ?thesis by (simp add: first_min_def)
  next
    case (Some t)
    obtain cell ag path sc where t: "t = (cell, ag, path, sc)" by (cases t)
    from fm Some t obtain pre post where xs: "xs = pre @ (cell, ag) # post"
      and c: "candidate grid st (cell, ag) = Some (path, sc)"
      and p1: "\<forall>ca \<in> set pre. \<forall>p s. candidate grid st ca = Some (p, s) \<longrightarrow> sc < s"
      and p2: "\<forall>ca \<in> set post. \<forall>p s. candidate grid st ca = Some (p, s) \<longrightarrow> sc \<le> s"
      unfolding first_min_def by auto
    have "xs @ [x] = pre @ (cell, ag) # (post @ [x])" using xs by simp
    moreover have "\<forall>ca \<in> set (post @ [x]). \<forall>p s. candidate grid st ca = Some (p, s) \<longrightarrow> sc \<le> s"
      using p2 None by auto
    ultimately show ?thesis
      unfolding b' Some t using c p1 by (intro first_min_SomeI)
  qed
next
  case (Some ps)
  obtain path s where ps: "ps = (path, s)" by (cases ps)
  have cx: "candidate grid st (fst x, snd x) = Some (path, s)" using Some ps by simp
  show ?thesis
  proof (cases b1)
    case None
    with scan_step_candidate [OF step] Some ps
    have b': "b' = Some (fst x, snd x, path, s)" by simp
    from fm None have allnone: "\<forall>ca \<in> set xs. candidate grid st ca = None"
      by (simp add: first_min_def)
    have "xs @ [x] = xs @ (fst x, snd x) # []" by simp
    moreover have "\<forall>ca \<in> set xs. \<forall>p s'. candidate grid st ca = Some (p, s') \<longrightarrow> s < s'"
      using allnone by simp
    moreover have "\<forall>ca \<in> set []. \<forall>p s'. candidate grid st ca = Some (p, s') \<longrightarrow> s \<le> s'"
      by simp
    ultimately show ?thesis
      unfolding b' using cx by (intro first_min_SomeI)
  next
    case b1: (Some t)
    obtain cell ag p0 sc where t: "t = (cell, ag, p0, sc)" by (cases t)
    from fm b1 t obtain pre post where xs: "xs = pre @ (cell, ag) # post"
      and c: "candidate grid st (cell, ag) = Some (p0, sc)"
      and p1: "\<forall>ca \<in> set pre. \<forall>p s. candidate grid st ca = Some (p, s) \<longrightarrow> sc < s"
      and p2: "\<forall>ca \<in> set post. \<forall>p s. candidate grid st ca = Some (p, s) \<longrightarrow> sc \<le> s"
      unfolding first_min_def by auto
    show ?thesis
    proof (cases "s < sc")
      case True
      with scan_step_candidate [OF step] Some ps b1 t
      have b': "b' = Some (fst x, snd x, path, s)" by simp
      have "\<forall>ca \<in> set xs. \<forall>p s'. candidate grid st ca = Some (p, s') \<longrightarrow> s < s'"
        using xs c p1 p2 True by fastforce
      moreover have "xs @ [x] = xs @ (fst x, snd x) # []" by simp
      moreover have "\<forall>ca \<in> set []. \<forall>p s'. candidate grid st ca = Some (p, s') \<longrightarrow> s \<le> s'"
        by simp
      ultimately show ?thesis
        unfolding b' using cx by (intro first_min_SomeI)
    next
      case False
      with scan_step_candidate [OF step] Some ps b1 t
      have b': "b' = Some (cell, ag, p0, sc)" by simp
      have "xs @ [x] = pre @ (cell, ag) # (post @ [x])" using xs by simp
      moreover have "\<forall>ca \<in> set (post @ [x]). \<forall>p s'. candidate grid st ca = Some (p, s') \<longrightarrow> sc \<le> s'"
        using p2 Some ps False by auto
      ultimately show ?thesis
        unfolding b' using c p1 by (intro first_min_SomeI)
    qed
  qed
qed

lemma scan_first_min:
  "scan grid st pairs None = Some (Inr b) \<Longrightarrow> first_min grid st pairs b"
proof (induction pairs arbitrary: b rule: rev_induct)
  case Nil
  then show ?case by (simp add: first_min_def)
next
  case (snoc x xs)
  from snoc.prems obtain b1 where s1: "scan grid st xs None = Some (Inr b1)"
    and s2: "scan_step grid st b1 x = Some (Inr b)"
    by (auto simp: scan_append split: option.splits sum.splits)
  from first_min_snoc [OF snoc.IH [OF s1] s2] show ?case .
qed


lemma astar_error:
  assumes "astar start goal grid = Some (Inl e)"
  shows "e = IndexError \<and> \<not> rect_grid grid"
proof (cases "rect_grid grid")
  case True
  with astar_no_error [of grid start goal e] assms show ?thesis by simp
next
  case False
  show ?thesis
  proof (cases grid)
    case Nil
    with assms False show ?thesis by (simp add: astar_def)
  next
    case (Cons row0 rows)
    with astar_basic [of start goal grid] assms False show ?thesis
      by (simp add: astar_ok_def)
  qed
qed

lemma scan_step_total: "\<exists>r. scan_step grid st b ca = Some r"
proof -
  obtain cell ag where ca: "ca = (cell, ag)" by (cases ca)
  obtain r where "astar (est_pos st ag) cell grid = Some r"
    using astar_total by blast
  then show ?thesis
    by (simp add: scan_step_def ca Let_def split: sum.splits option.splits)
qed

lemma scan_step_error:
  "scan_step grid st b ca = Some (Inl e) \<Longrightarrow> e = IndexError \<and> \<not> rect_grid grid"
  by (cases ca)
     (auto simp: scan_step_def Let_def split: option.splits sum.splits if_splits
           dest: astar_error)

lemma scan_total: "\<exists>r. scan grid st pairs b = Some r"
proof (induction pairs arbitrary: b)
  case Nil
  then show ?case by simp
next
  case (Cons ca pairs)
  obtain r where r: "scan_step grid st b ca = Some r"
    using scan_step_total by blast
  show ?case
  proof (cases r)
    case (Inl e)
    with r show ?thesis by simp
  next
    case (Inr b')
    with r Cons.IH [of b'] show ?thesis by simp
  qed
qed

lemma scan_error:
  "scan grid st pairs b = Some (Inl e) \<Longrightarrow> e = IndexError \<and> \<not> rect_grid grid"
proof (induction pairs arbitrary: b)
  case Nil
  then show ?case by simp
next
  case (Cons ca pairs)
  show ?case
  proof (cases "scan_step grid st b ca")
    case None
    with Cons.prems show ?thesis by simp
  next
    case (Some r)
    show ?thesis
    proof (cases r)
      case (Inl e')
      with Some Cons.prems have "scan_step grid st b ca = Some (Inl e)" by simp
      then show ?thesis by (rule scan_step_error)
    next
      case (Inr b')
      with Some Cons.prems have "scan grid st pairs b' = Some (Inl e)" by simp
      then show ?thesis by (rule Cons.IH)
    qed
  qed
qed

text \<open>
  The legs of a walk from \<open>pos\<close> through the targets \<open>ts\<close> in order: the sum of the
  numbers of moves of the paths found, when the search finds a path for every leg.
\<close>

fun legs :: "grid \<Rightarrow> cell \<Rightarrow> cell list \<Rightarrow> int option" where
  "legs grid pos [] = Some 0"
| "legs grid pos (t # ts) =
     (case astar pos t grid of
        Some (Inr (Some path)) \<Rightarrow>
          (case legs grid t ts of
             None \<Rightarrow> None
           | Some n \<Rightarrow> Some (int (length path) - 1 + n))
      | _ \<Rightarrow> None)"

lemma legs_snoc:
  "legs grid pos ts = Some n \<Longrightarrow> astar (last (pos # ts)) t grid = Some (Inr (Some path)) \<Longrightarrow>
     legs grid pos (ts @ [t]) = Some (n + int (length path) - 1)"
proof (induction ts arbitrary: pos n)
  case Nil
  then show ?case by simp
next
  case (Cons a ts)
  from Cons.prems(1) obtain p m where a: "astar pos a grid = Some (Inr (Some p))"
    and m: "legs grid a ts = Some m" and n: "n = int (length p) - 1 + m"
    by (auto split: option.splits sum.splits)
  from Cons.prems(2) have "astar (last (a # ts)) t grid = Some (Inr (Some path))" by simp
  from Cons.IH [OF m this] a n show ?case by simp
qed

definition iter_ok :: "(cell fset \<Rightarrow> cell list) \<Rightarrow> bool" where
  "iter_ok iter \<longleftrightarrow> (\<forall>S. set (iter S) = fset S)"

definition alloc_inv :: "grid \<Rightarrow> (nat \<Rightarrow> cell) \<Rightarrow> cell fset \<Rightarrow> alloc_state \<Rightarrow> bool" where
  "alloc_inv grid starts dirty st \<longleftrightarrow>
     distinct (assignments st 0 @ assignments st 1)
     \<and> set (assignments st 0) \<union> set (assignments st 1) \<union> fset (remaining st) = fset dirty
     \<and> (set (assignments st 0) \<union> set (assignments st 1)) \<inter> fset (remaining st) = {}
     \<and> (\<forall>ag < 2. est_pos st ag = last (starts ag # assignments st ag)
            \<and> legs grid (starts ag) (assignments st ag) = Some (est_len st ag))"

definition commit :: "alloc_state \<Rightarrow> cell \<Rightarrow> nat \<Rightarrow> int \<Rightarrow> alloc_state" where
  "commit st cell ag best_score =
     st\<lparr>assignments := (assignments st)(ag := assignments st ag @ [cell]),
        est_pos := (est_pos st)(ag := cell),
        est_len := (est_len st)(ag := best_score),
        remaining := remaining st |-| {|cell|}\<rparr>"

lemma alloc_inv_commit:
  assumes inv: "alloc_inv grid starts dirty st"
    and ag: "ag < 2"
    and cand: "candidate grid st (cell, ag) = Some (path, sc)"
    and mem: "cell |\<in>| remaining st"
  shows "alloc_inv grid starts dirty (commit st cell ag sc)"
proof -
  let ?st = "commit st cell ag sc"
  from inv have d: "distinct (assignments st 0 @ assignments st 1)"
    and u: "set (assignments st 0) \<union> set (assignments st 1) \<union> fset (remaining st) = fset dirty"
    and i: "(set (assignments st 0) \<union> set (assignments st 1)) \<inter> fset (remaining st) = {}"
    and l: "\<forall>ag < 2. est_pos st ag = last (starts ag # assignments st ag)
            \<and> legs grid (starts ag) (assignments st ag) = Some (est_len st ag)"
    unfolding alloc_inv_def by blast+
  from mem i have fresh: "cell \<notin> set (assignments st 0)" "cell \<notin> set (assignments st 1)"
    by auto
  from ag have ag01: "ag = 0 \<or> ag = 1" by auto
  from cand have a: "astar (est_pos st ag) cell grid = Some (Inr (Some path))"
    and sc: "sc = est_len st ag + int (length path) - 1"
    by (auto simp: candidate_def split: option.splits sum.splits)
  have d': "distinct (assignments ?st 0 @ assignments ?st 1)"
    using d fresh ag01 by (auto simp: commit_def)
  have u': "set (assignments ?st 0) \<union> set (assignments ?st 1) \<union> fset (remaining ?st) = fset dirty"
    using u mem ag01 by (auto simp: commit_def)
  have i': "(set (assignments ?st 0) \<union> set (assignments ?st 1)) \<inter> fset (remaining ?st) = {}"
    using i ag01 by (auto simp: commit_def)
  have l': "\<forall>b < 2. est_pos ?st b = last (starts b # assignments ?st b)
            \<and> legs grid (starts b) (assignments ?st b) = Some (est_len ?st b)"
  proof (intro allI impI)
    fix b :: nat assume b: "b < 2"
    show "est_pos ?st b = last (starts b # assignments ?st b)
            \<and> legs grid (starts b) (assignments ?st b) = Some (est_len ?st b)"
    proof (cases "b = ag")
      case True
      from l ag have p: "est_pos st ag = last (starts ag # assignments st ag)"
        and lg: "legs grid (starts ag) (assignments st ag) = Some (est_len st ag)" by blast+
      from a p have "astar (last (starts ag # assignments st ag)) cell grid = Some (Inr (Some path))"
        by simp
      from legs_snoc [OF lg this] sc True show ?thesis by (simp add: commit_def)
    next
      case False
      with l b show ?thesis by (simp add: commit_def)
    qed
  qed
  from d' u' i' l' show ?thesis unfolding alloc_inv_def by blast
qed


definition alloc_final :: "(cell fset \<Rightarrow> cell list) \<Rightarrow> grid \<Rightarrow> (nat \<Rightarrow> cell) \<Rightarrow> cell fset
    \<Rightarrow> py_error + alloc_state \<Rightarrow> bool" where
  "alloc_final iter grid starts dirty r =
     (case r of
        Inl e \<Rightarrow> (e = IndexError \<and> \<not> rect_grid grid) \<or> (e = KeyError \<and> \<not> iter_ok iter)
      | Inr st \<Rightarrow>
          alloc_inv grid starts dirty st
          \<and> (remaining st = {||}
              \<or> (\<forall>ca \<in> set (List.product (iter (remaining st)) [0, 1]).
                    candidate grid st ca = None)))"

lemma first_min_SomeD:
  assumes "first_min grid st pairs (Some (cell, ag, path, sc))"
  shows "(cell, ag) \<in> set pairs \<and> candidate grid st (cell, ag) = Some (path, sc)"
  using assms unfolding first_min_def by auto

lemma assign_loop_final:
  "alloc_inv grid starts dirty st \<Longrightarrow>
     \<exists>r. assign_loop iter grid st = Some r \<and> alloc_final iter grid starts dirty r"
proof (induction "fcard (remaining st)" arbitrary: st rule: less_induct)
  case less
  note inv = less.prems
  let ?pairs = "List.product (iter (remaining st)) [0, 1]"
  show ?case
  proof (cases "remaining st = {||}")
    case True
    then have "assign_loop iter grid st = Some (Inr st)"
      by (subst assign_loop.simps) simp
    with inv True show ?thesis by (simp add: alloc_final_def)
  next
    case ne: False
    obtain r where r: "scan grid st ?pairs None = Some r"
      using scan_total by blast
    show ?thesis
    proof (cases r)
      case (Inl e)
      with r have "assign_loop iter grid st = Some (Inl e)"
        using ne by (subst assign_loop.simps) simp
      moreover from r Inl have "e = IndexError \<and> \<not> rect_grid grid"
        by (simp add: scan_error)
      ultimately show ?thesis by (simp add: alloc_final_def)
    next
      case (Inr b)
      with r have fm: "first_min grid st ?pairs b" by (simp add: scan_first_min)
      show ?thesis
      proof (cases b)
        case None
        with r Inr have "assign_loop iter grid st = Some (Inr st)"
          using ne by (subst assign_loop.simps) simp
        moreover from fm None have "\<forall>ca \<in> set ?pairs. candidate grid st ca = None"
          by (simp add: first_min_def)
        ultimately show ?thesis using inv by (simp add: alloc_final_def)
      next
        case (Some t)
        obtain cell ag path sc where t: "t = (cell, ag, path, sc)" by (cases t)
        from first_min_SomeD [OF fm [unfolded Some t]]
        have mem: "(cell, ag) \<in> set ?pairs"
          and cand: "candidate grid st (cell, ag) = Some (path, sc)" by simp_all
        from mem have ag: "ag < 2" and cm: "cell \<in> set (iter (remaining st))" by auto
        show ?thesis
        proof (cases "cell |\<in>| remaining st")
          case True
          have eq: "assign_loop iter grid st = assign_loop iter grid (commit st cell ag sc)"
            using ne r Inr Some t True by (subst assign_loop.simps) (simp add: commit_def)
          have "fcard (remaining st |-| {|cell|}) < fcard (remaining st)"
            using True by (rule fcard_fminus1_less)
          moreover have "remaining (commit st cell ag sc) = remaining st |-| {|cell|}"
            by (simp add: commit_def)
          ultimately have "fcard (remaining (commit st cell ag sc)) < fcard (remaining st)"
            by (simp only:)
          from less.hyps [OF this alloc_inv_commit [OF inv ag cand True]] eq
          show ?thesis by simp
        next
          case False
          have "assign_loop iter grid st = Some (Inl KeyError)"
            using ne r Inr Some t False by (subst assign_loop.simps) simp
          moreover have "\<not> iter_ok iter"
            using cm False unfolding iter_ok_def by auto
          ultimately show ?thesis by (simp add: alloc_final_def)
        qed
      qed
    qed
  qed
qed

definition starts_of :: "cell \<Rightarrow> cell \<Rightarrow> nat \<Rightarrow> cell" where
  "starts_of s0 s1 ag = (if ag = 0 then s0 else s1)"

lemma alloc_inv_init:
  "alloc_inv grid (starts_of s0 s1) dirty
     \<lparr>assignments = (\<lambda>ag. []), est_pos = (\<lambda>ag. if ag = 0 then s0 else s1),
      est_len = (\<lambda>ag. 0), remaining = dirty\<rparr>"
  by (simp add: alloc_inv_def starts_of_def)

lemma assign_state_final:
  "\<exists>r. assign_state iter agent_starts dirty grid = Some r \<and>
     (case agent_starts of
        s0 # s1 # _ \<Rightarrow> alloc_final iter grid (starts_of s0 s1) dirty r
      | _ \<Rightarrow> r = Inl IndexError)"
proof (cases agent_starts)
  case Nil
  then show ?thesis by (simp add: assign_state_def)
next
  case (Cons s0 rest)
  show ?thesis
  proof (cases rest)
    case Nil
    with Cons show ?thesis by (simp add: assign_state_def)
  next
    case c2: (Cons s1 more)
    have "alloc_inv grid (starts_of s0 s1) dirty
       \<lparr>assignments = (\<lambda>ag. []), est_pos = (\<lambda>ag. if ag = 0 then s0 else s1),
        est_len = (\<lambda>ag. 0), remaining = dirty\<rparr>"
      by (rule alloc_inv_init)
    from assign_loop_final [OF this, of iter]
    show ?thesis using Cons c2 by (simp add: assign_state_def)
  qed
qed

section \<open>The route of an assignment\<close>

text \<open>
  The route as the specification words it: the result sequence starts at \<open>start\<close>; for
  each target in order the search runs from the current tail of the sequence to the
  target; when a path exists, all its cells but the first are appended; when none
  exists, the target is skipped.
\<close>

fun buildRoute_spec :: "grid \<Rightarrow> cell list \<Rightarrow> cell list \<Rightarrow> (py_error + cell list) option" where
  "buildRoute_spec grid [] route = Some (Inr route)"
| "buildRoute_spec grid (t # ts) route =
     (case astar (last route) t grid of
        None \<Rightarrow> None
      | Some (Inl e) \<Rightarrow> Some (Inl e)
      | Some (Inr None) \<Rightarrow> buildRoute_spec grid ts route
      | Some (Inr (Some path)) \<Rightarrow> buildRoute_spec grid ts (route @ tl path))"

lemma plan_loop_spec:
  "last full = pos \<Longrightarrow> plan_loop grid ts pos full = buildRoute_spec grid ts full"
proof (induction ts arbitrary: pos full)
  case Nil
  then show ?case by simp
next
  case (Cons t ts)
  obtain r where r: "astar pos t grid = Some r" using astar_total by blast
  show ?case
  proof (cases r)
    case (Inl e)
    with r Cons.prems show ?thesis by simp
  next
    case (Inr po)
    show ?thesis
    proof (cases po)
      case None
      with r Inr Cons.prems Cons.IH [OF Cons.prems] show ?thesis by simp
    next
      case (Some path)
      from astar_path_ends [OF r [unfolded Inr Some]]
      have ne: "path \<noteq> []" and hd: "hd path = pos" and l: "last path = t" by simp_all
      from ne obtain c cs where p: "path = c # cs" by (cases path) auto
      have "last (full @ cs) = t"
      proof (cases cs)
        case Nil
        with p hd l Cons.prems show ?thesis by simp
      next
        case (Cons a as)
        with p l show ?thesis by simp
      qed
      from Cons.IH [OF this] r Inr Some p Cons.prems show ?thesis by simp
    qed
  qed
qed

lemma subseq_skip: "x \<notin> set xs \<Longrightarrow> subseq xs (x # ys) \<Longrightarrow> subseq xs ys"
  by (cases xs) auto

lemma plan_loop_legs:
  "legs grid pos ts = Some n \<Longrightarrow> distinct ts \<Longrightarrow>
     \<exists>r. plan_loop grid ts pos full = Some (Inr (full @ r))
        \<and> int (length r) = n \<and> subseq ts (pos # r)"
proof (induction ts arbitrary: pos n full)
  case Nil
  then show ?case by simp
next
  case (Cons t ts)
  from Cons.prems(1) obtain path m where a: "astar pos t grid = Some (Inr (Some path))"
    and m: "legs grid t ts = Some m" and n: "n = int (length path) - 1 + m"
    by (auto split: option.splits sum.splits)
  from Cons.prems(2) have fresh: "t \<notin> set ts" and d: "distinct ts" by simp_all
  from astar_path_ends [OF a]
  have ne: "path \<noteq> []" and hd: "hd path = pos" and l: "last path = t" by simp_all
  from ne hd obtain cs where p: "path = pos # cs" by (cases path) auto
  from Cons.IH [OF m d, of "full @ cs"] obtain r where
    res: "plan_loop grid ts t (full @ cs) = Some (Inr ((full @ cs) @ r))"
    and len: "int (length r) = m" and sub: "subseq ts (t # r)"
    by blast
  have one: "plan_loop grid (t # ts) pos full = Some (Inr (full @ (cs @ r)))"
    using a p res by simp
  have two: "int (length (cs @ r)) = n"
    using len n p by simp
  from subseq_skip [OF fresh sub] have "subseq (t # ts) (t # r)" by simp
  then have "subseq (t # ts) (butlast path @ (t # r))" by (rule list_emb_append2)
  moreover have "butlast path @ (t # r) = pos # (cs @ r)"
  proof -
    have "butlast path @ [t] = path" using ne l by (metis append_butlast_last_id)
    then have "butlast path @ (t # r) = path @ r" by (metis append.assoc append_Cons append_Nil)
    then show ?thesis using p by simp
  qed
  ultimately have three: "subseq (t # ts) (pos # (cs @ r))" by simp
  from one two three show ?case by blast
qed

lemma plan_loop_total: "\<exists>r. plan_loop grid ts pos full = Some r"
proof (induction ts arbitrary: pos full)
  case Nil
  then show ?case by simp
next
  case (Cons t ts)
  obtain r where r: "astar pos t grid = Some r" using astar_total by blast
  show ?case
  proof (cases r)
    case (Inl e)
    with r show ?thesis by simp
  next
    case (Inr po)
    show ?thesis
    proof (cases po)
      case None
      with r Inr Cons.IH [of pos full] show ?thesis by simp
    next
      case (Some path)
      show ?thesis
      proof (cases path)
        case Nil
        with r Inr Some Cons.IH [of pos full] show ?thesis by simp
      next
        case (Cons c cs)
        with r Inr Some Cons.IH [of t "full @ cs"] show ?thesis by simp
      qed
    qed
  qed
qed

lemma plan_loop_error:
  "plan_loop grid ts pos full = Some (Inl e) \<Longrightarrow> e = IndexError \<and> \<not> rect_grid grid"
proof (induction ts arbitrary: pos full)
  case Nil
  then show ?case by simp
next
  case (Cons t ts)
  obtain r where r: "astar pos t grid = Some r" using astar_total by blast
  show ?case
  proof (cases r)
    case (Inl e')
    with r Cons.prems have "astar pos t grid = Some (Inl e)" by simp
    then show ?thesis by (rule astar_error)
  next
    case (Inr po)
    show ?thesis
    proof (cases po)
      case None
      with r Inr Cons.prems Cons.IH [of pos full] show ?thesis by simp
    next
      case (Some path)
      show ?thesis
      proof (cases path)
        case Nil
        with r Inr Some Cons.prems Cons.IH [of pos full] show ?thesis by simp
      next
        case (Cons c cs)
        with r Inr Some Cons.prems Cons.IH [of t "full @ cs"] show ?thesis by simp
      qed
    qed
  qed
qed

lemma assign_state_inv:
  assumes "assign_state iter agent_starts dirty grid = Some (Inr st)"
  shows "\<exists>s0 s1 rest. agent_starts = s0 # s1 # rest
           \<and> alloc_final iter grid (starts_of s0 s1) dirty (Inr st)"
proof -
  from assign_state_final [of iter agent_starts dirty grid] assms
  have c: "(case agent_starts of
        s0 # s1 # _ \<Rightarrow> alloc_final iter grid (starts_of s0 s1) dirty (Inr st)
      | _ \<Rightarrow> Inr st = Inl IndexError)" by auto
  then obtain s0 r1 where a1: "agent_starts = s0 # r1" by (cases agent_starts) auto
  with c obtain s1 rest where a2: "r1 = s1 # rest" by (cases r1) auto
  from c a1 a2 show ?thesis by simp
qed

lemma starts_of_nth: "ag < 2 \<Longrightarrow> starts_of s0 s1 ag = (s0 # s1 # rest) ! ag"
  by (cases ag) (auto simp: starts_of_def)

lemma assigned_route:
  assumes a: "assign_state iter agent_starts dirty grid = Some (Inr st)" and ag: "ag < 2"
  shows "\<exists>r. plan_full_path (agent_starts ! ag) (assignments st ag) grid
              = Some (Inr (agent_starts ! ag # r))
           \<and> int (length r) = est_len st ag
           \<and> subseq (assignments st ag) (agent_starts ! ag # r)"
proof -
  from assign_state_inv [OF a] obtain s0 s1 rest where s: "agent_starts = s0 # s1 # rest"
    and f: "alloc_final iter grid (starts_of s0 s1) dirty (Inr st)" by blast
  from f have inv: "alloc_inv grid (starts_of s0 s1) dirty st" by (simp add: alloc_final_def)
  then have d: "distinct (assignments st 0 @ assignments st 1)"
    and l: "legs grid (starts_of s0 s1 ag) (assignments st ag) = Some (est_len st ag)"
    using ag unfolding alloc_inv_def by blast+
  from ag have "ag = 0 \<or> ag = 1" by auto
  with d have da: "distinct (assignments st ag)" by auto
  have st: "starts_of s0 s1 ag = agent_starts ! ag"
    using starts_of_nth [OF ag] s by simp
  from plan_loop_legs [OF l da, of "[starts_of s0 s1 ag]"] st
  show ?thesis by (simp add: plan_full_path_def)
qed

section \<open>Properties of the allocator and of the route builder\<close>

lemmas assign_eval = assign_state_def assign_loop.simps scan_step_def astar_eval
  sorted_list_of_fset.rep_eq

lemma assign_eval_blocked:
  "map_option (map_sum id (\<lambda>st. (assignments st 0, assignments st 1, est_len st 0, est_len st 1,
        remaining st)))
     (assign_state sorted_list_of_fset [(0, 0), (0, 0)] {|(0, 1), (0, 3)|} [[0, 0, 1, 0]])
   = Some (Inr ([(0, 1)], [], 1, 0, {|(0, 3)|}))"
  by (simp add: assign_eval)

lemma assign_eval_tie:
  "map_option (map_sum id (\<lambda>st. (assignments st 0, assignments st 1, est_len st 0, est_len st 1,
        remaining st)))
     (assign_state sorted_list_of_fset [(0, 0), (0, 2)] {|(0, 1)|} [[0, 0, 0]])
   = Some (Inr ([(0, 1)], [], 1, 0, {||}))"
  by (simp add: assign_eval)


lemma iter_ok_sorted: "iter_ok sorted_list_of_fset"
  by (simp add: iter_ok_def)

lemma assign_tasks_state:
  "assign_state iter agent_starts dirty grid = Some (Inr st) \<Longrightarrow>
     assign_tasks iter agent_starts dirty grid = Some (Inr (assignments st))"
  by (simp add: assign_tasks_def)

lemma assign_state_tasks:
  "assign_tasks iter agent_starts dirty grid = Some (Inr a) \<Longrightarrow>
     \<exists>st. assign_state iter agent_starts dirty grid = Some (Inr st) \<and> a = assignments st"
proof -
  assume a: "assign_tasks iter agent_starts dirty grid = Some (Inr a)"
  then obtain r where r: "assign_state iter agent_starts dirty grid = Some r"
    by (auto simp: assign_tasks_def)
  with a show ?thesis by (cases r) (simp_all add: assign_tasks_def)
qed

lemma map_sum_Inr_state:
  assumes "map_option (map_sum id f) x = Some (Inr v)"
  shows "\<exists>st. x = Some (Inr st) \<and> f st = v"
proof -
  from assms obtain r where r: "x = Some r" by auto
  with assms show ?thesis by (cases r) simp_all
qed

lemma final_no_path:
  assumes f: "alloc_final iter grid starts dirty (Inr st)" and ok: "iter_ok iter"
    and mem: "cell |\<in>| remaining st" and ag: "ag < 2"
  shows "astar (est_pos st ag) cell grid \<noteq> Some (Inr (Some path))"
proof
  assume a: "astar (est_pos st ag) cell grid = Some (Inr (Some path))"
  from mem have ne: "remaining st \<noteq> {||}" by auto
  with f have none: "\<forall>ca \<in> set (List.product (iter (remaining st)) [0, 1]).
      candidate grid st ca = None"
    by (simp add: alloc_final_def)
  from ok mem have "cell \<in> set (iter (remaining st))" by (simp add: iter_ok_def)
  moreover from ag have "ag \<in> set [0, 1]" by auto
  ultimately have "(cell, ag) \<in> set (List.product (iter (remaining st)) [0, 1])" by simp
  with none have "candidate grid st (cell, ag) = None" by blast
  with a show False by (simp add: candidate_def)
qed

lemma legs_nth:
  "legs grid pos ts = Some n \<Longrightarrow> i < length ts \<Longrightarrow>
     \<exists>path. astar ((pos # ts) ! i) (ts ! i) grid = Some (Inr (Some path))"
proof (induction ts arbitrary: pos n i)
  case Nil
  then show ?case by simp
next
  case (Cons a ts)
  from Cons.prems(1) obtain p m where a: "astar pos a grid = Some (Inr (Some p))"
    and m: "legs grid a ts = Some m"
    by (auto split: option.splits sum.splits)
  show ?case
  proof (cases i)
    case 0
    with a show ?thesis by simp
  next
    case (Suc j)
    with Cons.prems(2) have "j < length ts" by simp
    from Cons.IH [OF m this] Suc show ?thesis by simp
  qed
qed

lemma assigned_reached:
  assumes a: "assign_state iter agent_starts dirty grid = Some (Inr st)" and ag: "ag < 2"
    and i: "i < length (assignments st ag)"
  shows "\<exists>path. astar ((agent_starts ! ag # assignments st ag) ! i) (assignments st ag ! i) grid
            = Some (Inr (Some path))"
proof -
  from assign_state_inv [OF a] obtain s0 s1 rest where s: "agent_starts = s0 # s1 # rest"
    and f: "alloc_final iter grid (starts_of s0 s1) dirty (Inr st)" by blast
  from f have inv: "alloc_inv grid (starts_of s0 s1) dirty st" by (simp add: alloc_final_def)
  then have l: "legs grid (starts_of s0 s1 ag) (assignments st ag) = Some (est_len st ag)"
    using ag unfolding alloc_inv_def by blast
  have st: "starts_of s0 s1 ag = agent_starts ! ag"
    using starts_of_nth [OF ag] s by simp
  from legs_nth [OF l i] st show ?thesis by simp
qed

lemma unreachable_unassigned:
  assumes a: "assign_state iter agent_starts dirty grid = Some (Inr st)" and ag: "ag < 2"
    and ns: "\<forall>path. astar (agent_starts ! ag) t grid \<noteq> Some (Inr (Some path))"
    and nd: "\<forall>p path. p |\<in>| dirty \<longrightarrow> p \<noteq> t \<longrightarrow> astar p t grid \<noteq> Some (Inr (Some path))"
  shows "t \<notin> set (assignments st ag)"
proof
  assume "t \<in> set (assignments st ag)"
  then obtain i where i: "i < length (assignments st ag)" and ti: "assignments st ag ! i = t"
    by (auto simp: in_set_conv_nth)
  from assigned_reached [OF a ag i] ti obtain path where
    p: "astar ((agent_starts ! ag # assignments st ag) ! i) t grid = Some (Inr (Some path))"
    by auto
  from assign_state_inv [OF a] obtain s0 s1 rest where
    f: "alloc_final iter grid (starts_of s0 s1) dirty (Inr st)" by blast
  then have inv: "alloc_inv grid (starts_of s0 s1) dirty st" by (simp add: alloc_final_def)
  then have d: "distinct (assignments st 0 @ assignments st 1)"
    and u: "set (assignments st 0) \<union> set (assignments st 1) \<union> fset (remaining st) = fset dirty"
    unfolding alloc_inv_def by blast+
  from ag have ag01: "ag = 0 \<or> ag = 1" by auto
  with d have da: "distinct (assignments st ag)" by auto
  from u ag01 have sub: "set (assignments st ag) \<subseteq> fset dirty" by auto
  show False
  proof (cases i)
    case 0
    with p ns show False by simp
  next
    case (Suc j)
    with i have j: "j < length (assignments st ag)" by simp
    let ?p = "assignments st ag ! j"
    from p Suc have pp: "astar ?p t grid = Some (Inr (Some path))" by simp
    have "?p \<in> set (assignments st ag)" using j by simp
    with sub have pd: "?p |\<in>| dirty" by auto
    have "?p \<noteq> t"
    proof
      assume "?p = t"
      with ti have "assignments st ag ! j = assignments st ag ! i" by simp
      with da i j have "j = i" by (simp add: nth_eq_iff_index_eq)
      with Suc show False by simp
    qed
    with nd pd pp show False by blast
  qed
qed

text \<open>
  C3. \<open>assign_tasks\<close> always returns. When it returns an assignment, no target is
  assigned twice, to one agent or to both; the assigned targets together with the targets
  left in \<open>remaining\<close> are exactly the set \<open>dirty\<close>, and no assigned target is left in
  \<open>remaining\<close>. When the loop ends, the search finds no path from the last position of
  either agent to any remaining target (for an enumeration \<open>iter\<close> that lists the
  elements of the set). Every assigned target was reached by the search from the cell
  before it in its agent's list, the agent's start for the first one. Hence a target
  that the search reaches neither from an agent's start nor from any other cell of
  \<open>dirty\<close> is assigned to no agent.
\<close>

theorem assign_tasks_partition:
  "\<exists>r. assign_state iter agent_starts dirty grid = Some r \<and>
     (\<forall>st. r = Inr st \<longrightarrow>
        assign_tasks iter agent_starts dirty grid = Some (Inr (assignments st))
        \<and> distinct (assignments st 0) \<and> distinct (assignments st 1)
        \<and> set (assignments st 0) \<inter> set (assignments st 1) = {}
        \<and> set (assignments st 0) \<union> set (assignments st 1) \<union> fset (remaining st) = fset dirty
        \<and> (set (assignments st 0) \<union> set (assignments st 1)) \<inter> fset (remaining st) = {}
        \<and> (iter_ok iter \<longrightarrow>
             (\<forall>cell ag path. cell |\<in>| remaining st \<longrightarrow> ag < 2 \<longrightarrow>
                astar (est_pos st ag) cell grid \<noteq> Some (Inr (Some path))))
        \<and> (\<forall>ag i. ag < 2 \<longrightarrow> i < length (assignments st ag) \<longrightarrow>
              (\<exists>path. astar ((agent_starts ! ag # assignments st ag) ! i)
                         (assignments st ag ! i) grid = Some (Inr (Some path))))
        \<and> (\<forall>t. (\<forall>ag path. ag < 2 \<longrightarrow>
                    astar (agent_starts ! ag) t grid \<noteq> Some (Inr (Some path))) \<longrightarrow>
                (\<forall>p path. p |\<in>| dirty \<longrightarrow> p \<noteq> t \<longrightarrow>
                    astar p t grid \<noteq> Some (Inr (Some path))) \<longrightarrow>
                t \<notin> set (assignments st 0) \<union> set (assignments st 1)))"
proof -
  obtain r where r: "assign_state iter agent_starts dirty grid = Some r"
    using assign_state_final [of iter agent_starts dirty grid] by blast
  have "assign_tasks iter agent_starts dirty grid = Some (Inr (assignments st))
        \<and> distinct (assignments st 0) \<and> distinct (assignments st 1)
        \<and> set (assignments st 0) \<inter> set (assignments st 1) = {}
        \<and> set (assignments st 0) \<union> set (assignments st 1) \<union> fset (remaining st) = fset dirty
        \<and> (set (assignments st 0) \<union> set (assignments st 1)) \<inter> fset (remaining st) = {}
        \<and> (iter_ok iter \<longrightarrow>
             (\<forall>cell ag path. cell |\<in>| remaining st \<longrightarrow> ag < 2 \<longrightarrow>
                astar (est_pos st ag) cell grid \<noteq> Some (Inr (Some path))))
        \<and> (\<forall>ag i. ag < 2 \<longrightarrow> i < length (assignments st ag) \<longrightarrow>
              (\<exists>path. astar ((agent_starts ! ag # assignments st ag) ! i)
                         (assignments st ag ! i) grid = Some (Inr (Some path))))
        \<and> (\<forall>t. (\<forall>ag path. ag < 2 \<longrightarrow>
                    astar (agent_starts ! ag) t grid \<noteq> Some (Inr (Some path))) \<longrightarrow>
                (\<forall>p path. p |\<in>| dirty \<longrightarrow> p \<noteq> t \<longrightarrow>
                    astar p t grid \<noteq> Some (Inr (Some path))) \<longrightarrow>
                t \<notin> set (assignments st 0) \<union> set (assignments st 1))"
    if st: "r = Inr st" for st
  proof -
    from r st have a: "assign_state iter agent_starts dirty grid = Some (Inr st)" by simp
    from assign_state_inv [OF a] obtain s0 s1 rest where
      f: "alloc_final iter grid (starts_of s0 s1) dirty (Inr st)" by blast
    then have inv: "alloc_inv grid (starts_of s0 s1) dirty st" by (simp add: alloc_final_def)
    from inv have d: "distinct (assignments st 0 @ assignments st 1)"
      and u: "set (assignments st 0) \<union> set (assignments st 1) \<union> fset (remaining st) = fset dirty"
      and i: "(set (assignments st 0) \<union> set (assignments st 1)) \<inter> fset (remaining st) = {}"
      unfolding alloc_inv_def by auto
    from d have d0: "distinct (assignments st 0)" and d1: "distinct (assignments st 1)"
      and dj: "set (assignments st 0) \<inter> set (assignments st 1) = {}" by auto
    have np: "iter_ok iter \<longrightarrow>
             (\<forall>cell ag path. cell |\<in>| remaining st \<longrightarrow> ag < 2 \<longrightarrow>
                astar (est_pos st ag) cell grid \<noteq> Some (Inr (Some path)))"
      using final_no_path [OF f] by blast
    have re: "\<forall>ag i. ag < 2 \<longrightarrow> i < length (assignments st ag) \<longrightarrow>
              (\<exists>path. astar ((agent_starts ! ag # assignments st ag) ! i)
                         (assignments st ag ! i) grid = Some (Inr (Some path)))"
      using assigned_reached [OF a] by blast
    have un: "\<forall>t. (\<forall>ag path. ag < 2 \<longrightarrow>
                    astar (agent_starts ! ag) t grid \<noteq> Some (Inr (Some path))) \<longrightarrow>
                (\<forall>p path. p |\<in>| dirty \<longrightarrow> p \<noteq> t \<longrightarrow>
                    astar p t grid \<noteq> Some (Inr (Some path))) \<longrightarrow>
                t \<notin> set (assignments st 0) \<union> set (assignments st 1)"
    proof (intro allI impI)
      fix t
      assume ns: "\<forall>ag path. ag < 2 \<longrightarrow> astar (agent_starts ! ag) t grid \<noteq> Some (Inr (Some path))"
        and nd: "\<forall>p path. p |\<in>| dirty \<longrightarrow> p \<noteq> t \<longrightarrow> astar p t grid \<noteq> Some (Inr (Some path))"
      have z: "(0 :: nat) < 2" and o: "(1 :: nat) < 2" by simp_all
      from ns z have n0: "\<forall>path. astar (agent_starts ! 0) t grid \<noteq> Some (Inr (Some path))"
        by blast
      from ns o have n1: "\<forall>path. astar (agent_starts ! 1) t grid \<noteq> Some (Inr (Some path))"
        by blast
      from unreachable_unassigned [OF a z n0 nd] unreachable_unassigned [OF a o n1 nd]
      show "t \<notin> set (assignments st 0) \<union> set (assignments st 1)" by simp
    qed
    from assign_tasks_state [OF a] d0 d1 dj u i np re un show ?thesis by blast
  qed
  with r show ?thesis by blast
qed


lemma astar_eval_blocked0: "astar (0, 0) (0, 3) [[0, 0, 1, 0]] = Some (Inr None)"
  by (simp add: astar_eval)

lemma astar_eval_blocked1: "astar (0, 1) (0, 3) [[0, 0, 1, 0]] = Some (Inr None)"
  by (simp add: astar_eval)

lemma astar_eval_blocked2:
  "astar (0, 0) (0, 1) [[0, 0, 1, 0]] = Some (Inr (Some [(0, 0), (0, 1)]))"
  by (simp add: astar_eval)

theorem assign_tasks_partition_witness:
  "\<exists>st. assign_state sorted_list_of_fset [(0, 0), (0, 0)] {|(0, 1), (0, 3)|} [[0, 0, 1, 0]]
          = Some (Inr st)
      \<and> assignments st 0 = [(0, 1)] \<and> assignments st 1 = [] \<and> remaining st = {|(0, 3)|}
      \<and> iter_ok sorted_list_of_fset
      \<and> astar (est_pos st 0) (0, 3) [[0, 0, 1, 0]] = Some (Inr None)
      \<and> set (assignments st 0) \<union> set (assignments st 1) \<union> fset (remaining st)
          = fset {|(0, 1), (0, 3)|}
      \<and> astar (([(0, 0), (0, 0)] ! 0 # assignments st 0) ! 0) (assignments st 0 ! 0)
          [[0, 0, 1, 0]] = Some (Inr (Some [(0, 0), (0, 1)]))
      \<and> astar (0, 0) (0, 3) [[0, 0, 1, 0]] = Some (Inr None)
      \<and> astar (0, 1) (0, 3) [[0, 0, 1, 0]] = Some (Inr None)
      \<and> (0, 3) \<notin> set (assignments st 0) \<union> set (assignments st 1)"
proof -
  let ?G = "[[0, 0, 1, 0 :: int]]"
  let ?D = "{|(0, 1), (0, 3 :: int)|} :: cell fset"
  let ?A = "[(0, 0), (0, 0 :: int)] :: cell list"
  from map_sum_Inr_state [OF assign_eval_blocked] obtain st where
    a: "assign_state sorted_list_of_fset ?A ?D ?G = Some (Inr st)"
    and p: "assignments st 0 = [(0, 1)]" "assignments st 1 = []" "remaining st = {|(0, 3)|}"
    by auto
  from assign_tasks_partition [of sorted_list_of_fset ?A ?D ?G] a
  have u: "set (assignments st 0) \<union> set (assignments st 1) \<union> fset (remaining st) = fset ?D"
    and un: "\<forall>t. (\<forall>ag path. ag < 2 \<longrightarrow> astar (?A ! ag) t ?G \<noteq> Some (Inr (Some path))) \<longrightarrow>
                (\<forall>p path. p |\<in>| ?D \<longrightarrow> p \<noteq> t \<longrightarrow> astar p t ?G \<noteq> Some (Inr (Some path))) \<longrightarrow>
                t \<notin> set (assignments st 0) \<union> set (assignments st 1)"
    by auto
  have A: "\<forall>ag. ag < 2 \<longrightarrow> ?A ! ag = (0, 0)"
    by (auto simp: less_2_cases_iff)
  have n1: "\<forall>ag path. ag < 2 \<longrightarrow> astar (?A ! ag) (0, 3) ?G \<noteq> Some (Inr (Some path))"
    using A astar_eval_blocked0 by simp
  have n2: "\<forall>p path. p |\<in>| ?D \<longrightarrow> p \<noteq> (0, 3) \<longrightarrow> astar p (0, 3) ?G \<noteq> Some (Inr (Some path))"
    using astar_eval_blocked1 by auto
  from un n1 n2 have out: "(0, 3) \<notin> set (assignments st 0) \<union> set (assignments st 1)"
    by blast
  from assign_state_inv [OF a] obtain s0 s1 rest where
    "?A = s0 # s1 # rest"
    and f: "alloc_final sorted_list_of_fset ?G (starts_of s0 s1) ?D (Inr st)" by blast
  then have "alloc_inv ?G (starts_of (0, 0) (0, 0)) ?D st"
    by (auto simp: alloc_final_def)
  then have "est_pos st 0 = (0, 1)"
    using p by (simp add: alloc_inv_def starts_of_def)
  then have e: "astar (est_pos st 0) (0, 3) ?G = Some (Inr None)"
    by (simp add: astar_eval_blocked1)
  have r: "astar ((?A ! 0 # assignments st 0) ! 0) (assignments st 0 ! 0) ?G
      = Some (Inr (Some [(0, 0), (0, 1)]))"
    using p astar_eval_blocked2 by simp
  from a p u iter_ok_sorted e r astar_eval_blocked0 astar_eval_blocked1 out
  show ?thesis by blast
qed

lemma plan_loop_prefix:
  "plan_loop grid ts pos full = Some (Inr route) \<Longrightarrow> \<exists>r. route = full @ r"
proof (induction ts arbitrary: pos full)
  case Nil
  then show ?case by simp
next
  case (Cons t ts)
  obtain r where r: "astar pos t grid = Some r" using astar_total by blast
  show ?case
  proof (cases r)
    case (Inl e)
    with r Cons.prems show ?thesis by simp
  next
    case (Inr po)
    show ?thesis
    proof (cases po)
      case None
      with r Inr Cons.prems have "plan_loop grid ts pos full = Some (Inr route)" by simp
      then show ?thesis by (rule Cons.IH)
    next
      case (Some path)
      show ?thesis
      proof (cases path)
        case Nil
        with r Inr Some Cons.prems have "plan_loop grid ts pos full = Some (Inr route)" by simp
        then show ?thesis by (rule Cons.IH)
      next
        case (Cons c cs)
        with r Inr Some Cons.prems have "plan_loop grid ts t (full @ cs) = Some (Inr route)"
          by simp
        from Cons.IH [OF this] show ?thesis by auto
      qed
    qed
  qed
qed

text \<open>
  C7. \<open>plan_full_path\<close> computes the route the specification describes: it starts the
  route at \<open>start\<close> and, for each target in order, appends the path from the tail of the
  route to the target without its first cell when the search finds one, and skips the
  target otherwise. A route returned begins with \<open>start\<close>. For the targets that
  \<open>assign_tasks\<close> assigns to an agent on the same grid, the route from that agent's
  start is returned and contains the assigned targets in the order of the assignment.
\<close>

theorem plan_full_path_route:
  "plan_full_path start tasks grid = buildRoute_spec grid tasks [start]
   \<and> (\<forall>route. plan_full_path start tasks grid = Some (Inr route) \<longrightarrow>
         route \<noteq> [] \<and> hd route = start)
   \<and> (\<forall>a ag. assign_tasks iter agent_starts dirty grid = Some (Inr a) \<longrightarrow> ag < 2 \<longrightarrow>
         (\<exists>route. plan_full_path (agent_starts ! ag) (a ag) grid = Some (Inr route)
            \<and> subseq (a ag) route))"
proof -
  have one: "plan_full_path start tasks grid = buildRoute_spec grid tasks [start]"
    unfolding plan_full_path_def by (rule plan_loop_spec) simp
  have two: "\<forall>route. plan_full_path start tasks grid = Some (Inr route) \<longrightarrow>
         route \<noteq> [] \<and> hd route = start"
    using plan_loop_prefix [of grid tasks start "[start]"]
    by (auto simp: plan_full_path_def)
  have three: "\<exists>route. plan_full_path (agent_starts ! ag) (a ag) grid = Some (Inr route)
            \<and> subseq (a ag) route"
    if a: "assign_tasks iter agent_starts dirty grid = Some (Inr a)" and ag: "ag < 2" for a ag
  proof -
    from assign_state_tasks [OF a] obtain st where
      st: "assign_state iter agent_starts dirty grid = Some (Inr st)" and eq: "a = assignments st"
      by blast
    from assigned_route [OF st ag] eq show ?thesis by blast
  qed
  from one two three show ?thesis by blast
qed

lemma assign_eval_line4:
  "map_option (map_sum id (\<lambda>st. (assignments st 0, assignments st 1, est_len st 0, est_len st 1,
        remaining st)))
     (assign_state sorted_list_of_fset [(0, 0), (0, 0)] {|(0, 1), (0, 3)|} [[0, 0, 0, 0]])
   = Some (Inr ([(0, 1), (0, 3)], [], 3, 0, {||}))"
  by (simp add: assign_eval)

lemma plan_eval_line4:
  "plan_full_path (0, 0) [(0, 1), (0, 3)] [[0, 0, 0, 0]]
     = Some (Inr [(0, 0), (0, 1), (0, 2), (0, 3)])"
  by (simp add: plan_full_path_def astar_eval)

theorem plan_full_path_route_witness:
  "\<exists>a. assign_tasks sorted_list_of_fset [(0, 0), (0, 0)] {|(0, 1), (0, 3)|} [[0, 0, 0, 0]]
          = Some (Inr a)
      \<and> a 0 = [(0, 1), (0, 3)]
      \<and> plan_full_path ([(0, 0), (0, 0)] ! 0) (a 0) [[0, 0, 0, 0]]
          = Some (Inr [(0, 0), (0, 1), (0, 2), (0, 3)])
      \<and> subseq (a 0) [(0, 0), (0, 1), (0, 2), (0, 3)]"
proof -
  from map_sum_Inr_state [OF assign_eval_line4] obtain st where
    s: "assign_state sorted_list_of_fset [(0, 0), (0, 0)] {|(0, 1), (0, 3)|} [[0, 0, 0, 0]]
          = Some (Inr st)"
    and p: "assignments st 0 = [(0, 1), (0, 3)]"
    by auto
  let ?a = "assignments st"
  have a: "assign_tasks sorted_list_of_fset [(0, 0), (0, 0)] {|(0, 1), (0, 3)|} [[0, 0, 0, 0]]
          = Some (Inr ?a)"
    using s by (rule assign_tasks_state)
  from plan_full_path_route [of "(0, 0)" "[]" "[[0, 0, 0, 0]]" sorted_list_of_fset
      "[(0, 0), (0, 0)]" "{|(0, 1), (0, 3)|}"] a
  obtain route where
    r: "plan_full_path ([(0, 0), (0, 0)] ! 0) (?a 0) [[0, 0, 0, 0]] = Some (Inr route)"
    and sub: "subseq (?a 0) route"
    by (metis zero_less_numeral)
  from r p plan_eval_line4 have "route = [(0, 0), (0, 1), (0, 2), (0, 3)]" by simp
  with r sub a p show ?thesis by blast
qed

text \<open>
  C10. In the state in which \<open>assign_tasks\<close> ends, the estimated length \<open>est_len\<close> of
  each agent is the number of moves of the route that \<open>plan_full_path\<close> builds for the
  agent's assignment from the agent's start: the number of cells of the route minus one.
\<close>

theorem est_len_route_length:
  "assign_state iter agent_starts dirty grid = Some (Inr st) \<Longrightarrow> ag < 2 \<Longrightarrow>
     \<exists>route. plan_full_path (agent_starts ! ag) (assignments st ag) grid = Some (Inr route)
        \<and> est_len st ag = int (length route) - 1"
proof -
  assume a: "assign_state iter agent_starts dirty grid = Some (Inr st)" and ag: "ag < 2"
  from assigned_route [OF a ag] obtain r where
    p: "plan_full_path (agent_starts ! ag) (assignments st ag) grid
          = Some (Inr (agent_starts ! ag # r))"
    and l: "int (length r) = est_len st ag" by blast
  from l have "est_len st ag = int (length (agent_starts ! ag # r)) - 1" by simp
  with p show ?thesis by blast
qed

theorem est_len_route_length_witness:
  "\<exists>st. assign_state sorted_list_of_fset [(0, 0), (0, 0)] {|(0, 1), (0, 3)|} [[0, 0, 0, 0]]
          = Some (Inr st)
      \<and> (0 :: nat) < 2
      \<and> plan_full_path ([(0, 0), (0, 0)] ! 0) (assignments st 0) [[0, 0, 0, 0]]
          = Some (Inr [(0, 0), (0, 1), (0, 2), (0, 3)])
      \<and> est_len st 0 = 3"
proof -
  from map_sum_Inr_state [OF assign_eval_line4] obtain st where
    s: "assign_state sorted_list_of_fset [(0, 0), (0, 0)] {|(0, 1), (0, 3)|} [[0, 0, 0, 0]]
          = Some (Inr st)"
    and p: "assignments st 0 = [(0, 1), (0, 3)]"
    by auto
  have z: "(0 :: nat) < 2" by simp
  from est_len_route_length [OF s z] obtain route where
    r: "plan_full_path ([(0, 0), (0, 0)] ! 0) (assignments st 0) [[0, 0, 0, 0]]
          = Some (Inr route)"
    and l: "est_len st 0 = int (length route) - 1" by blast
  from r p plan_eval_line4 have "route = [(0, 0), (0, 1), (0, 2), (0, 3)]" by simp
  with r l s z show ?thesis by auto
qed

lemma astar_unfree_goal:
  assumes rg: "rect_grid grid" and ne: "goal \<noteq> start" and nf: "\<not> free_cell grid goal"
  shows "astar start goal grid = Some (Inr None)"
proof -
  obtain r where r: "astar start goal grid = Some r" using astar_total by blast
  show ?thesis
  proof (cases r)
    case (Inl e)
    with r astar_no_error [OF rg, of start goal e] show ?thesis by simp
  next
    case (Inr po)
    show ?thesis
    proof (cases po)
      case None
      with r Inr show ?thesis by simp
    next
      case (Some path)
      with r Inr have a: "astar start goal grid = Some (Inr (Some path))" by simp
      from astar_good_path [OF a] obtain W where
        g: "good_path start goal grid (length grid) W path" ..
      then have pne: "path \<noteq> []" and hd: "hd path = start" and l: "last path = goal"
        and t: "\<forall>c \<in> set (tl path). passable grid (length grid) W c"
        by (simp_all add: good_path_def)
      from pne obtain c cs where p: "path = c # cs" by (cases path) auto
      with hd l ne have "cs \<noteq> []" by auto
      with p l have "goal \<in> set (tl path)" by (metis last_ConsR last_in_set list.sel(3))
      with t have "free_cell grid goal" using passable_free by blast
      with nf show ?thesis by simp
    qed
  qed
qed

text \<open>
  C6, as amended. \<open>assign_tasks\<close> and \<open>plan_full_path\<close> make no check of their start
  and target cells. On a rectangular grid, with two agent starts, they return normally
  whatever the cells are, obstacles and cells outside the grid included; a goal that is
  not a free cell of the grid and differs from the start is answered by the search with
  no path.
\<close>

theorem no_input_validation:
  "rect_grid grid \<Longrightarrow> iter_ok iter \<Longrightarrow> 2 \<le> length agent_starts \<Longrightarrow>
     (\<exists>a. assign_tasks iter agent_starts dirty grid = Some (Inr a))
     \<and> (\<exists>route. plan_full_path start tasks grid = Some (Inr route))
     \<and> (goal \<noteq> start \<longrightarrow> \<not> free_cell grid goal \<longrightarrow> astar start goal grid = Some (Inr None))"
proof -
  assume rg: "rect_grid grid" and ok: "iter_ok iter" and two: "2 \<le> length agent_starts"
  from two obtain s0 s1 rest where s: "agent_starts = s0 # s1 # rest"
    by (cases agent_starts; cases "tl agent_starts") auto
  from assign_state_final [of iter agent_starts dirty grid] s obtain r where
    r: "assign_state iter agent_starts dirty grid = Some r"
    and f: "alloc_final iter grid (starts_of s0 s1) dirty r" by auto
  have "\<exists>st. r = Inr st"
  proof (cases r)
    case (Inl e)
    with f rg ok show ?thesis by (simp add: alloc_final_def)
  next
    case (Inr st)
    then show ?thesis by simp
  qed
  then obtain st where "r = Inr st" ..
  with r have one: "\<exists>a. assign_tasks iter agent_starts dirty grid = Some (Inr a)"
    using assign_tasks_state by blast
  obtain q where q: "plan_loop grid tasks start [start] = Some q"
    using plan_loop_total by blast
  have "\<exists>route. q = Inr route"
  proof (cases q)
    case (Inl e)
    with q plan_loop_error [of grid tasks start "[start]" e] rg show ?thesis by simp
  next
    case (Inr route)
    then show ?thesis by simp
  qed
  with q have two': "\<exists>route. plan_full_path start tasks grid = Some (Inr route)"
    by (auto simp: plan_full_path_def)
  have three: "goal \<noteq> start \<longrightarrow> \<not> free_cell grid goal \<longrightarrow> astar start goal grid = Some (Inr None)"
    using astar_unfree_goal [OF rg] by blast
  from one two' three show ?thesis by blast
qed

lemma plan_eval_obstacle_start:
  "plan_full_path (0, 0) [(0, 1)] [[1, 0]] = Some (Inr [(0, 0), (0, 1)])"
  by (simp add: plan_full_path_def astar_eval)

lemma assign_eval_bad_starts:
  "map_option (map_sum id (\<lambda>st. (assignments st 0, assignments st 1, est_len st 0, est_len st 1,
        remaining st)))
     (assign_state sorted_list_of_fset [(0, 0), (5, 5)] {|(0, 1)|} [[1, 0]])
   = Some (Inr ([(0, 1)], [], 1, 0, {||}))"
  by (simp add: assign_eval)

lemma assign_eval_bad_target:
  "map_option (map_sum id (\<lambda>st. (assignments st 0, assignments st 1, est_len st 0, est_len st 1,
        remaining st)))
     (assign_state sorted_list_of_fset [(0, 1), (0, 1)] {|(0, 0), (7, 7)|} [[1, 0]])
   = Some (Inr ([], [], 0, 0, {|(0, 0), (7, 7)|}))"
  by (simp add: assign_eval)

theorem no_input_validation_counterexample:
  "\<not> free_cell [[1, 0]] (0, 0) \<and> \<not> free_cell [[1, 0]] (5, 5) \<and> \<not> free_cell [[1, 0]] (7, 7)
   \<and> plan_full_path (0, 0) [(0, 1)] [[1, 0]] = Some (Inr [(0, 0), (0, 1)])
   \<and> plan_full_path (0, 1) [(0, 0), (7, 7)] [[1, 0]] = Some (Inr [(0, 1)])
   \<and> map_option (map_sum id (\<lambda>a. (a 0, a 1)))
        (assign_tasks sorted_list_of_fset [(0, 0), (5, 5)] {|(0, 1)|} [[1, 0]])
      = Some (Inr ([(0, 1)], []))
   \<and> map_option (map_sum id (\<lambda>a. (a 0, a 1)))
        (assign_tasks sorted_list_of_fset [(0, 1), (0, 1)] {|(0, 0), (7, 7)|} [[1, 0]])
      = Some (Inr ([], []))"
proof -
  have f: "\<not> free_cell [[1, 0]] (0, 0)" "\<not> free_cell [[1, 0]] (5, 5)"
    "\<not> free_cell [[1, 0]] (7, 7)"
    by (simp_all add: free_cell_def)
  have p2: "plan_full_path (0, 1) [(0, 0), (7, 7)] [[1, 0]] = Some (Inr [(0, 1)])"
    by (simp add: plan_full_path_def astar_eval)
  from map_sum_Inr_state [OF assign_eval_bad_starts] obtain st where
    "assign_state sorted_list_of_fset [(0, 0), (5, 5)] {|(0, 1)|} [[1, 0]] = Some (Inr st)"
    and "assignments st 0 = [(0, 1)]" "assignments st 1 = []" by auto
  then have a1: "map_option (map_sum id (\<lambda>a. (a 0, a 1)))
        (assign_tasks sorted_list_of_fset [(0, 0), (5, 5)] {|(0, 1)|} [[1, 0]])
      = Some (Inr ([(0, 1)], []))"
    by (simp add: assign_tasks_def)
  from map_sum_Inr_state [OF assign_eval_bad_target] obtain st where
    "assign_state sorted_list_of_fset [(0, 1), (0, 1)] {|(0, 0), (7, 7)|} [[1, 0]]
       = Some (Inr st)"
    and "assignments st 0 = []" "assignments st 1 = []" by auto
  then have a2: "map_option (map_sum id (\<lambda>a. (a 0, a 1)))
        (assign_tasks sorted_list_of_fset [(0, 1), (0, 1)] {|(0, 0), (7, 7)|} [[1, 0]])
      = Some (Inr ([], []))"
    by (simp add: assign_tasks_def)
  from f plan_eval_obstacle_start p2 a1 a2 show ?thesis by blast
qed

theorem no_input_validation_witness:
  "rect_grid [[1, 0]] \<and> iter_ok sorted_list_of_fset \<and> (2 :: nat) \<le> length [(0, 0), (5, 5 :: int)]
   \<and> (\<exists>a. assign_tasks sorted_list_of_fset [(0, 0), (5, 5)] {|(0, 1)|} [[1, 0]] = Some (Inr a))
   \<and> (\<exists>route. plan_full_path (0, 0) [(0, 1)] [[1, 0]] = Some (Inr route))
   \<and> (0, 0) \<noteq> (0, 1 :: int) \<and> \<not> free_cell [[1, 0]] (0, 0)
   \<and> astar (0, 1) (0, 0) [[1, 0]] = Some (Inr None)"
proof -
  have rg: "rect_grid [[1, 0]]" by (simp add: rect_grid_def)
  have two: "(2 :: nat) \<le> length [(0, 0), (5, 5 :: int)]" by simp
  have nf: "\<not> free_cell [[1, 0]] (0, 0)" by (simp add: free_cell_def)
  have ne: "(0, 0) \<noteq> (0, 1 :: int)" by simp
  from no_input_validation [OF rg iter_ok_sorted two, of "{|(0, 1)|}" "(0, 0)" "[(0, 1)]"
      "(0, 0)"]
  have a: "\<exists>a. assign_tasks sorted_list_of_fset [(0, 0), (5, 5)] {|(0, 1)|} [[1, 0]]
      = Some (Inr a)"
    and b: "\<exists>route. plan_full_path (0, 0) [(0, 1)] [[1, 0]] = Some (Inr route)"
    by blast+
  from no_input_validation [OF rg iter_ok_sorted two, of "{||}" "(0, 1)" "[]" "(0, 0)"] ne nf
  have c: "astar (0, 1) (0, 0) [[1, 0]] = Some (Inr None)" by simp
  from rg iter_ok_sorted two a b ne nf c show ?thesis by blast
qed

section \<open>Ties between candidate pairs\<close>














section \<open>Shortest paths on grids without obstacles\<close>













text \<open>A cell inside the \<open>H \<times> W\<close> rectangle.\<close>

definition inb :: "nat \<Rightarrow> nat \<Rightarrow> cell \<Rightarrow> bool" where
  "inb H W c \<longleftrightarrow> 0 \<le> fst c \<and> fst c < int H \<and> 0 \<le> snd c \<and> snd c < int W"



























end
